theory Spec2Isabelle
  imports Main "HOL-Library.Multiset"
begin

section \<open>Cards and the deck\<close>

text \<open>
  A card is the Python tuple \<open>(value, suit)\<close>; \<open>card[0]\<close> is \<open>fst\<close> and \<open>card[1]\<close> is
  \<open>snd\<close>. Python integers are unbounded, so both components are \<open>int\<close>.
\<close>

type_synonym card = "int \<times> int"

text \<open>
  Modelled from the spec: the module \<open>Deck.py\<close> is imported by every source file but is
  not among the sources. The spec describes a card as a (value, suit) pair with four suits,
  a sentinel \<open>NO_CARD\<close> distinct from every real card, and a full card universe in a stable
  order that excludes \<open>NO_CARD\<close>. \<open>PPOPlayer.input_dim = 185\<close> is five blocks of
  \<open>len(get_full_list_of_cards()) + 1\<close> entries, so the universe has 36 cards: nine values for
  each of the four suits, the highest being \<open>ACE\<close>. The sentinel is a value of the type of
  cards, a tuple: the sources put it in the lists of legal cards, pass it to \<open>step\<close> as an
  action and return it where \<open>Deck.CardType\<close> is declared. The numbers chosen for the suits
  and inside the sentinel are placeholders: apart from the evaluations of the example games,
  the theorems below use only that the four suits differ, that the sentinel is a tuple and
  not a card of the universe, and that the universe has 36 cards.
\<close>

definition HEARTS :: int where "HEARTS = 0"
definition DIAMONDS :: int where "DIAMONDS = 1"
definition SPADES :: int where "SPADES = 2"
definition CLUBS :: int where "CLUBS = 3"
definition ACE :: int where "ACE = 14"
definition NO_CARD :: card where "NO_CARD = (- 1, - 1)"

definition card_values :: "int list" where
  "card_values = [6, 7, 8, 9, 10, 11, 12, 13, 14]"

definition get_full_list_of_cards :: "card list" where
  "get_full_list_of_cards =
     concat (map (\<lambda>s. map (\<lambda>v. (v, s)) card_values) [HEARTS, DIAMONDS, SPADES, CLUBS])"

text \<open>
  Modelled from the spec: \<open>Deck.draw(n)\<close> "removes and returns up to n cards from the front,
  fewer if exhausted - never errors"; \<open>Deck.current_num_cards\<close> is the number of cards left.
  The deck object is the list of its remaining cards; the result of \<open>draw\<close> is the pair of
  the cards drawn and the deck left.
\<close>

definition draw :: "nat \<Rightarrow> card list \<Rightarrow> card list \<times> card list" where
  "draw n d = (take n d, drop n d)"

definition current_num_cards :: "card list \<Rightarrow> int" where
  "current_num_cards d = int (length d)"

section \<open>Python lists and errors\<close>

text \<open>
  The exceptions that the modelled statements can raise: a list index out of range, a failed
  \<open>list.index\<close>, an attribute of \<open>None\<close>, and an order comparison between a tuple and an
  integer. No statement of the sources raises an exception of its own.
\<close>

datatype error = IndexError | ValueError | AttributeError | TypeError

definition bind_err :: "error + 'a \<Rightarrow> ('a \<Rightarrow> error + 'b) \<Rightarrow> error + 'b" where
  "bind_err r f = (case r of Inl x \<Rightarrow> Inl x | Inr v \<Rightarrow> f v)"

text \<open>
  Subscription \<open>xs[i]\<close> with a Python integer: positions \<open>0 .. len(xs) - 1\<close> read from the
  front, positions \<open>-len(xs) .. -1\<close> from the back, and every other position raises.
\<close>

definition py_get :: "'a list \<Rightarrow> int \<Rightarrow> error + 'a" where
  "py_get xs i =
     (if 0 \<le> i \<and> i < int (length xs) then Inr (xs ! nat i)
      else if i < 0 \<and> - int (length xs) \<le> i then Inr (xs ! nat (int (length xs) + i))
      else Inl IndexError)"

text \<open>\<open>xs.index(x)\<close>: the position of the first element equal to \<open>x\<close>, or a \<open>ValueError\<close>.\<close>

fun py_index :: "'a list \<Rightarrow> 'a \<Rightarrow> error + int" where
  "py_index [] x = Inl ValueError"
| "py_index (y # ys) x =
     (if y = x then Inr 0 else bind_err (py_index ys x) (\<lambda>i. Inr (i + 1)))"

section \<open>Players (DurakPlayer.py)\<close>

text \<open>
  The fields of \<open>DurakPlayer\<close>. The engine sets the trump suit of a player with
  \<open>set_trump_suit\<close>; the class under \<open>src/\<close> names the method \<open>set_trump_rank\<close> and keeps the
  suit in \<open>_trump_rank\<close>, which \<open>get_lowest_trump\<close> reads.
\<close>

record player =
  hand :: "card list"
  trump_rank :: "int option"
  initial_hand_size :: int
  name :: string

definition take_cards :: "player \<Rightarrow> card list \<Rightarrow> player" where
  "take_cards p cards = p\<lparr>hand := hand p @ cards\<rparr>"

definition set_trump_rank :: "player \<Rightarrow> int \<Rightarrow> player" where
  "set_trump_rank p rank = p\<lparr>trump_rank := Some rank\<rparr>"

definition empty_hand :: "player \<Rightarrow> player" where
  "empty_hand p = p\<lparr>hand := []\<rparr>"

definition hand_size :: "player \<Rightarrow> int" where
  "hand_size p = int (length (hand p))"

text \<open>
  The counting loop of \<open>is_starting_hand_legal\<close>: the four counters are the accumulator, and
  a card that is neither a heart, a diamond nor a spade is counted as a club.
\<close>

fun count_suits :: "card list \<Rightarrow> int \<times> int \<times> int \<times> int \<Rightarrow> int \<times> int \<times> int \<times> int" where
  "count_suits [] acc = acc"
| "count_suits (c # cs) (num_hearts, num_diamonds, num_spades, num_clubs) =
     (if snd c = HEARTS then count_suits cs (num_hearts + 1, num_diamonds, num_spades, num_clubs)
      else if snd c = DIAMONDS then count_suits cs (num_hearts, num_diamonds + 1, num_spades, num_clubs)
      else if snd c = SPADES then count_suits cs (num_hearts, num_diamonds, num_spades + 1, num_clubs)
      else count_suits cs (num_hearts, num_diamonds, num_spades, num_clubs + 1))"

definition is_starting_hand_legal :: "player \<Rightarrow> bool" where
  "is_starting_hand_legal p =
     (case count_suits (hand p) (0, 0, 0, 0) of
        (num_hearts, num_diamonds, num_spades, num_clubs) \<Rightarrow>
          if (initial_hand_size p - 1) \<in> set [num_hearts, num_diamonds, num_spades, num_clubs]
             \<or> num_hearts + num_diamonds = initial_hand_size p
             \<or> num_spades + num_clubs = initial_hand_size p
          then False else True)"

text \<open>
  \<open>get_lowest_trump\<close> returns \<open>Deck.NO_CARD\<close> when the hand holds no trump card and the
  lowest trump value, an integer, otherwise; \<open>None\<close> stands for the sentinel here. The test
  \<open>min_trump == Deck.NO_CARD\<close> is an equality and holds only while \<open>min_trump\<close> is the
  sentinel.
\<close>

fun get_lowest_trump_loop :: "int option \<Rightarrow> card list \<Rightarrow> int option \<Rightarrow> int option" where
  "get_lowest_trump_loop tr [] min_trump = min_trump"
| "get_lowest_trump_loop tr (c # cs) min_trump =
     (if Some (snd c) = tr then
        (if min_trump = None \<or> fst c < the min_trump
         then get_lowest_trump_loop tr cs (Some (fst c))
         else get_lowest_trump_loop tr cs min_trump)
      else get_lowest_trump_loop tr cs min_trump)"

definition get_lowest_trump :: "player \<Rightarrow> int option" where
  "get_lowest_trump p = get_lowest_trump_loop (trump_rank p) (hand p) None"

text \<open>
  The base class's \<open>update_end_round\<close> is \<open>pass\<close>: the notification leaves the player as it
  is.
\<close>

definition update_end_round :: "player \<Rightarrow> string \<Rightarrow> card list \<times> card list \<Rightarrow> bool \<Rightarrow> player" where
  "update_end_round p defending_player_name table successfully_defended = p"

text \<open>
  The policies remove the card they play from their own hand (\<open>self._hand.remove(card)\<close> in
  \<open>RandomPlayer.attack\<close> and \<open>defend\<close>); the engine never does.
\<close>

definition play_from_hand :: "player \<Rightarrow> card \<Rightarrow> player" where
  "play_from_hand p c = (if c \<noteq> NO_CARD then p\<lparr>hand := remove1 c (hand p)\<rparr> else p)"

section \<open>The engine state (DurakEnv.py)\<close>

text \<open>
  Player objects are shared: the same object is reached through \<open>players\<close>,
  \<open>active_players\<close>, \<open>turn_player\<close> and \<open>attacking_player\<close>, and \<open>take_cards\<close> on one
  reference is seen through the others. The model keeps the objects in a store addressed by
  references (natural numbers); the lists and pointers of the engine hold references, and
  \<open>==\<close> on players, which is object identity, is equality of references.

  The attribute \<open>state\<close> is the tuple of the four list objects; every method that rebinds
  one of the four lists rebinds \<open>state\<close> before it returns, so \<open>state\<close> is a function of the
  four fields. The GUI is not modelled.
\<close>

record env =
  store :: "nat \<Rightarrow> player"
  players :: "nat list"
  active_players :: "nat list"
  attacking_player :: "nat option"
  turn_player :: "nat option"
  loser :: "nat option"
  attacking_cards :: "card list"
  defending_cards :: "card list"
  legal_attacking_cards :: "card list"
  legal_defending_cards :: "card list"
  deck :: "card list"
  trump_suit :: int
  defending :: bool
  successful :: bool
  limit :: int
  last_action :: card
  reset_round :: bool
  attack_phase :: bool
  reset_attacker :: bool
  reward :: int

type_synonym game_state = "card list \<times> card list \<times> card list \<times> card list"

definition MIN_PLAYERS :: int where "MIN_PLAYERS = 2"
definition HAND_SIZE :: int where "HAND_SIZE = 6"
definition attacker :: int where "attacker = 0"
definition defender :: int where "defender = 1"

definition state :: "env \<Rightarrow> game_state" where
  "state e = (attacking_cards e, defending_cards e, legal_attacking_cards e, legal_defending_cards e)"

definition on_player :: "env \<Rightarrow> nat \<Rightarrow> (player \<Rightarrow> player) \<Rightarrow> env" where
  "on_player e p f = e\<lparr>store := (store e)(p := f (store e p))\<rparr>"

subsection \<open>The two phases\<close>

definition do_attack_phase :: "env \<Rightarrow> error + env" where
  "do_attack_phase e =
     (if last_action e \<noteq> NO_CARD then
        Inr (e\<lparr>attacking_cards := attacking_cards e @ [last_action e], attack_phase := False\<rparr>)
      else
        bind_err (py_get (active_players e) (- 1)) (\<lambda>lst.
        if turn_player e = Some lst then
          Inr (e\<lparr>defending := False, successful := True, reset_attacker := True\<rparr>)
        else
          bind_err (case turn_player e of None \<Rightarrow> Inl ValueError
                    | Some t \<Rightarrow> py_index (active_players e) t) (\<lambda>i.
          bind_err (py_get (active_players e) (i + 1)) (\<lambda>t1.
          bind_err (py_get (active_players e) defender) (\<lambda>d.
          if t1 = d then
            bind_err (py_get (active_players e) (- 1)) (\<lambda>lst1.
            if t1 \<noteq> lst1 then
              bind_err (py_index (active_players e) t1) (\<lambda>i1.
              bind_err (py_get (active_players e) (i1 + 1)) (\<lambda>t2.
              Inr (e\<lparr>reset_attacker := False, turn_player := Some t2\<rparr>)))
            else
              bind_err (py_index (active_players e) t1) (\<lambda>i1.
              bind_err (py_get (active_players e) (i1 - 1)) (\<lambda>t2.
              Inr (e\<lparr>turn_player := Some t2, defending := False, successful := True,
                      reset_attacker := True\<rparr>))))
          else Inr (e\<lparr>reset_attacker := False, turn_player := Some t1\<rparr>))))))"

definition do_defence_phase :: "env \<Rightarrow> error + env" where
  "do_defence_phase e =
     (if last_action e \<noteq> NO_CARD then
        (let e1 = e\<lparr>defending_cards := defending_cards e @ [last_action e], attack_phase := True\<rparr>;
             e2 = (if int (length (attacking_cards e1)) = int (length (defending_cards e1))
                      \<and> int (length (defending_cards e1)) = limit e1
                   then e1\<lparr>defending := False, successful := True\<rparr> else e1)
         in Inr (e2\<lparr>reset_attacker := True\<rparr>))
      else
        (let e1 = e\<lparr>defending := False, successful := False\<rparr>
         in case turn_player e1 of
              None \<Rightarrow> Inl AttributeError
            | Some t \<Rightarrow>
                (let e2 = on_player e1 t (\<lambda>p. take_cards p (attacking_cards e1))
                 in Inr (on_player e2 t (\<lambda>p. take_cards p (defending_cards e2))))))"

subsection \<open>Reward and the end of a round\<close>

definition calculate_reward :: "env \<Rightarrow> error + int" where
  "calculate_reward e =
     (case turn_player e of
        None \<Rightarrow> Inl AttributeError
      | Some t \<Rightarrow>
          if hand_size (store e t) = 0 \<and> current_num_cards (deck e) = 0 then Inr 30
          else if \<not> defending e then (if successful e then Inr 1 else Inr (- 1))
          else Inr 0)"

definition check_end_round :: "env \<Rightarrow> error + env" where
  "check_end_round e =
     (if \<not> defending e then Inr (e\<lparr>reset_round := True\<rparr>)
      else if attack_phase e \<and> reset_attacker e then
        bind_err (py_get (active_players e) attacker) (\<lambda>a. Inr (e\<lparr>turn_player := Some a\<rparr>))
      else if \<not> attack_phase e then
        bind_err (py_get (active_players e) defender) (\<lambda>d. Inr (e\<lparr>turn_player := Some d\<rparr>))
      else Inr e)"

fun update_end_round_players_loop :: "nat list \<Rightarrow> env \<Rightarrow> error + env" where
  "update_end_round_players_loop [] e = Inr e"
| "update_end_round_players_loop (p # ps) e =
     bind_err (py_get (active_players e) defender) (\<lambda>d.
     update_end_round_players_loop ps
       (on_player e p (\<lambda>pl. update_end_round pl (name (store e d))
                               (attacking_cards e, defending_cards e) (successful e))))"

definition update_end_round_players :: "env \<Rightarrow> error + env" where
  "update_end_round_players e = update_end_round_players_loop (active_players e) e"

text \<open>
  One iteration of the refill loops: draw what is missing up to \<open>HAND_SIZE\<close>, at least
  nothing, and hand it to the player.
\<close>

definition refill_player :: "env \<Rightarrow> nat \<Rightarrow> env" where
  "refill_player e p =
     (case draw (nat (max 0 (HAND_SIZE - hand_size (store e p)))) (deck e) of
        (drawn_cards, rest) \<Rightarrow> (on_player e p (\<lambda>pl. take_cards pl drawn_cards))\<lparr>deck := rest\<rparr>)"

fun refill_loop :: "nat list \<Rightarrow> env \<Rightarrow> env" where
  "refill_loop [] e = e"
| "refill_loop (p # ps) e = refill_loop ps (refill_player e p)"

definition update_players_hands :: "env \<Rightarrow> error + env" where
  "update_players_hands e =
     (let e1 = refill_loop (take (nat defender) (active_players e)
                            @ drop (nat (defender + 1)) (active_players e)) e
      in bind_err (py_get (active_players e1) defender) (\<lambda>d. Inr (refill_player e1 d)))"

fun remove_all :: "nat list \<Rightarrow> nat list \<Rightarrow> nat list" where
  "remove_all [] ring = ring"
| "remove_all (p # ps) ring = remove_all ps (remove1 p ring)"

definition remove_winners :: "env \<Rightarrow> env" where
  "remove_winners e =
     (let to_remove = filter (\<lambda>p. hand_size (store e p) = 0) (active_players e)
      in e\<lparr>active_players := remove_all to_remove (active_players e)\<rparr>)"

definition move_attacker_back :: "env \<Rightarrow> error + env" where
  "move_attacker_back e =
     (case active_players e of
        [] \<Rightarrow> Inl IndexError
      | temp # rest \<Rightarrow> Inr (e\<lparr>active_players := rest @ [temp]\<rparr>))"

definition update_active_players_order :: "env \<Rightarrow> error + env" where
  "update_active_players_order e =
     (if int (length (active_players e)) = 1 then
        bind_err (py_get (active_players e) 0) (\<lambda>p. Inr (e\<lparr>loser := Some p\<rparr>))
      else if int (length (active_players e)) \<ge> MIN_PLAYERS then
        bind_err (py_get (active_players e) attacker) (\<lambda>a.
        bind_err (if Some a = attacking_player e then move_attacker_back e else Inr e) (\<lambda>e1.
        if \<not> successful e1 then move_attacker_back e1 else Inr e1))
      else Inr e)"

definition game_over :: "env \<Rightarrow> bool" where
  "game_over e = (int (length (active_players e)) < MIN_PLAYERS)"

definition do_reset_round :: "env \<Rightarrow> error + env" where
  "do_reset_round e =
     (let e1 = e\<lparr>attacking_cards := [], defending_cards := [],
                 legal_attacking_cards := [], legal_defending_cards := []\<rparr>
      in bind_err (py_get (active_players e1) attacker) (\<lambda>a.
         bind_err (py_get (active_players e1) defender) (\<lambda>d.
         Inr (e1\<lparr>turn_player := Some a, attacking_player := Some a,
                 defending := True, successful := False,
                 limit := min HAND_SIZE (hand_size (store e1 d)),
                 attack_phase := True, reset_attacker := True, reset_round := False\<rparr>))))"

subsection \<open>Legal cards\<close>

text \<open>
  The inner loops of \<open>update_legal_cards\<close> stop at the first table card with the same value
  and another suit: they answer whether there is one.
\<close>

fun value_in_play :: "card \<Rightarrow> card list \<Rightarrow> bool" where
  "value_in_play c [] = False"
| "value_in_play c (t # ts) =
     (if fst c = fst t \<and> snd c \<noteq> snd t then True else value_in_play c ts)"

text \<open>
  The loop over the full list of cards; the accumulator is the pair of the two legal lists
  built so far. \<open>attacking_cards[-1]\<close> is read only where \<open>attacking_cards\<close> is not empty.
\<close>

fun legal_cards_loop ::
  "card list \<Rightarrow> card list \<Rightarrow> int \<Rightarrow> card list \<Rightarrow> card list \<times> card list \<Rightarrow> card list \<times> card list" where
  "legal_cards_loop att dfd trump [] acc = acc"
| "legal_cards_loop att dfd trump (c # cs) (la, ld) =
     (let la1 =
            (if c \<notin> set att \<and> c \<notin> set dfd then
               (let la2 = (if value_in_play c att then la @ [c] else la)
                in if c \<notin> set la2
                   then (if value_in_play c dfd then la2 @ [c] else la2)
                   else la2)
             else la);
          ld1 =
            (if length att > length dfd then
               (if c \<notin> set dfd then
                  (if (snd c = snd (last att) \<and> fst c > fst (last att))
                      \<or> (snd c = trump \<and> snd (last att) \<noteq> trump)
                   then ld @ [c] else ld)
                else ld)
             else ld)
      in legal_cards_loop att dfd trump cs (la1, ld1))"

definition update_legal_cards :: "env \<Rightarrow> env" where
  "update_legal_cards e =
     (if length (attacking_cards e) = 0 then
        e\<lparr>legal_attacking_cards := get_full_list_of_cards, legal_defending_cards := [NO_CARD]\<rparr>
      else
        (case legal_cards_loop (attacking_cards e) (defending_cards e) (trump_suit e)
                get_full_list_of_cards ([NO_CARD], [NO_CARD]) of
           (la, ld) \<Rightarrow> e\<lparr>legal_attacking_cards := la, legal_defending_cards := ld\<rparr>))"

subsection \<open>One step\<close>

text \<open>
  \<open>step\<close> returns the new engine together with what the method returns: the state, the
  reward and the game-over flag (the fourth component is always the empty list).
\<close>

definition resolve_round :: "env \<Rightarrow> error + env" where
  "resolve_round e =
     bind_err (update_end_round_players e) (\<lambda>e1.
     bind_err (update_players_hands e1) (\<lambda>e2.
     bind_err (update_active_players_order (remove_winners e2)) (\<lambda>e3.
     if \<not> game_over e3 then do_reset_round e3 else Inr e3)))"

definition step :: "env \<Rightarrow> card \<Rightarrow> error + env \<times> (game_state \<times> int \<times> bool)" where
  "step e action =
     (let e0 = e\<lparr>last_action := action, reward := 0\<rparr>
      in bind_err (if attack_phase e0 then do_attack_phase e0 else do_defence_phase e0) (\<lambda>e1.
         bind_err (calculate_reward e1) (\<lambda>r.
         bind_err (check_end_round (e1\<lparr>reward := r\<rparr>)) (\<lambda>e2.
         bind_err (if reset_round e2 then resolve_round e2 else Inr e2) (\<lambda>e3.
         (let e4 = update_legal_cards e3
          in Inr (e4, (state e4, reward e4, game_over e4))))))))"

definition get_available_actions :: "env \<Rightarrow> error + card set" where
  "get_available_actions e =
     bind_err (py_get (active_players e) defender) (\<lambda>d.
     case turn_player e of
       None \<Rightarrow> Inl AttributeError
     | Some t \<Rightarrow>
         if t = d then Inr (set (hand (store e t)) \<inter> set (snd (snd (snd (state e)))))
         else Inr (set (hand (store e t)) \<inter> set (fst (snd (snd (state e))))))"

subsection \<open>Construction and reset\<close>

fun set_trump_suit_all :: "nat list \<Rightarrow> int \<Rightarrow> (nat \<Rightarrow> player) \<Rightarrow> (nat \<Rightarrow> player)" where
  "set_trump_suit_all [] t st = st"
| "set_trump_suit_all (p # ps) t st = set_trump_suit_all ps t (st(p := set_trump_rank (st p) t))"

text \<open>
  The constructor, from the player objects (the store) and the list of players. It binds
  \<open>active_players\<close> to the list of players itself; \<open>reset\<close> replaces it by a copy.
\<close>

definition init :: "(nat \<Rightarrow> player) \<Rightarrow> nat list \<Rightarrow> env" where
  "init st ps =
     \<lparr>store = set_trump_suit_all ps HEARTS st, players = ps, active_players = ps,
      attacking_player = None, turn_player = None, loser = None,
      attacking_cards = [], defending_cards = [],
      legal_attacking_cards = [], legal_defending_cards = [],
      deck = get_full_list_of_cards, trump_suit = HEARTS,
      defending = True, successful = False, limit = 0, last_action = NO_CARD,
      reset_round = False, attack_phase = True, reset_attacker = True, reward = 0\<rparr>"

fun reset_hands_loop :: "nat list \<Rightarrow> env \<Rightarrow> env" where
  "reset_hands_loop [] e = e"
| "reset_hands_loop (p # ps) e =
     reset_hands_loop ps (on_player e p (\<lambda>pl. set_trump_rank (empty_hand pl) (trump_suit e)))"

definition reset_hands :: "env \<Rightarrow> env" where
  "reset_hands e = reset_hands_loop (active_players e) e"

text \<open>
  \<open>deal_cards\<close> hands \<open>HAND_SIZE\<close> cards to one player after the other and returns \<open>True\<close>
  (deal again) at the first player whose hand is not a legal starting hand.
\<close>

fun deal_cards_loop :: "nat list \<Rightarrow> env \<Rightarrow> bool \<times> env" where
  "deal_cards_loop [] e = (False, e)"
| "deal_cards_loop (p # ps) e =
     (case draw (nat HAND_SIZE) (deck e) of
        (drawn_cards, rest) \<Rightarrow>
          (let e1 = (on_player e p (\<lambda>pl. take_cards pl drawn_cards))\<lparr>deck := rest\<rparr>
           in if \<not> is_starting_hand_legal (store e1 p) then (True, e1)
              else deal_cards_loop ps e1))"

definition deal_cards :: "env \<Rightarrow> bool \<times> env" where
  "deal_cards e = deal_cards_loop (active_players e) e"

text \<open>
  The deal loop of \<open>initialize_players\<close> runs until a deal is legal. Each iteration builds a
  new deck and shuffles it; the results of the successive shuffles are the first argument,
  and the loop has no result (\<open>None\<close>) when it has used them all without a legal deal.
  \<open>set_gui\<close> and \<open>initialize_for_game\<close> touch nothing that is modelled.
\<close>

fun initialize_players :: "card list list \<Rightarrow> env \<Rightarrow> env option" where
  "initialize_players [] e = None"
| "initialize_players (shuffled_deck # later) e =
     (case deal_cards (reset_hands (e\<lparr>deck := shuffled_deck\<rparr>)) of
        (deal, e1) \<Rightarrow> if deal then initialize_players later e1 else Some e1)"

text \<open>
  The first loop of \<open>set_first_attacker\<close>. It tests \<open>value < lowest_trump_value\<close> for every
  player, with no test for the sentinel before it. \<open>lowest_trump_value\<close> is always an integer
  (\<open>ACE + 1\<close> or a value that passed the test), so for a player without a trump card the
  test compares the tuple \<open>Deck.NO_CARD\<close> with an integer, and Python 3 raises \<open>TypeError\<close>.
\<close>

fun lowest_trump_loop ::
  "env \<Rightarrow> nat list \<Rightarrow> int \<times> string option \<Rightarrow> error + int \<times> string option" where
  "lowest_trump_loop e [] acc = Inr acc"
| "lowest_trump_loop e (p # ps) (lowest_trump_value, starting_player_name) =
     (case get_lowest_trump (store e p) of
        None \<Rightarrow> Inl TypeError
      | Some v \<Rightarrow>
          if v < lowest_trump_value
          then lowest_trump_loop e ps (v, Some (name (store e p)))
          else lowest_trump_loop e ps (lowest_trump_value, starting_player_name))"

text \<open>
  The second loop rotates the ring until the selected player is the attacker. The first
  argument bounds the number of tests of the loop condition; \<open>None\<close> is the loop still
  running when the bound is reached.
\<close>

fun rotate_to_name :: "nat \<Rightarrow> string \<Rightarrow> env \<Rightarrow> (error + env) option" where
  "rotate_to_name 0 nm e = None"
| "rotate_to_name (Suc n) nm e =
     (case py_get (active_players e) attacker of
        Inl x \<Rightarrow> Some (Inl x)
      | Inr a \<Rightarrow>
          if name (store e a) \<noteq> nm then
            (case move_attacker_back e of
               Inl x \<Rightarrow> Some (Inl x)
             | Inr e1 \<Rightarrow> rotate_to_name n nm e1)
          else Some (Inr e))"

definition set_first_attacker :: "env \<Rightarrow> (error + env) option" where
  "set_first_attacker e =
     (case lowest_trump_loop e (active_players e) (ACE + 1, None) of
        Inl x \<Rightarrow> Some (Inl x)
      | Inr (lowest_trump_value, starting_player_name) \<Rightarrow>
          (case starting_player_name of
             None \<Rightarrow> Some (Inr e)
           | Some nm \<Rightarrow> rotate_to_name (length (active_players e)) nm e))"

text \<open>
  \<open>reset\<close>: the second argument is the result of \<open>random.shuffle\<close> on the copy of the list of
  players, the third the results of the deck shuffles of the deal loop. \<open>reset_attributes\<close>
  is the block of assignments that \<open>reset\<close> starts with.
\<close>

definition reset_attributes :: "env \<Rightarrow> nat list \<Rightarrow> env" where
  "reset_attributes e shuffled_players =
     e\<lparr>active_players := shuffled_players,
       attacking_player := None, turn_player := None, loser := None,
       attacking_cards := [], defending_cards := [],
       legal_attacking_cards := [], legal_defending_cards := [],
       deck := get_full_list_of_cards, trump_suit := HEARTS,
       defending := True, successful := False, limit := 0, last_action := NO_CARD,
       reset_round := False, attack_phase := True, reset_attacker := True,
       reward := 0\<rparr>"

definition reset :: "env \<Rightarrow> nat list \<Rightarrow> card list list \<Rightarrow> (error + env \<times> game_state) option" where
  "reset e shuffled_players shuffled_decks =
     (case initialize_players shuffled_decks (reset_attributes e shuffled_players) of
        None \<Rightarrow> None
      | Some e1 \<Rightarrow>
          (case set_first_attacker e1 of
             None \<Rightarrow> None
           | Some r \<Rightarrow>
               Some (bind_err r (\<lambda>e2.
                     bind_err (do_reset_round e2) (\<lambda>e3.
                     (let e4 = update_legal_cards e3 in Inr (e4, state e4)))))))"

section \<open>The driving loop and an example game\<close>

text \<open>
  The loop that drives the engine asks the turn player's policy for a card, the policy takes
  the card out of its hand, and the card is fed to \<open>step\<close>. \<open>plays\<close> runs a list of such
  turns and stops at the first error.
\<close>

definition play :: "env \<Rightarrow> card \<Rightarrow> error + env \<times> (game_state \<times> int \<times> bool)" where
  "play e c =
     (case turn_player e of
        None \<Rightarrow> Inl AttributeError
      | Some t \<Rightarrow> step (on_player e t (\<lambda>p. play_from_hand p c)) c)"

fun plays :: "env \<Rightarrow> card list \<Rightarrow> error + env" where
  "plays e [] = Inr e"
| "plays e (c # cs) = (case play e c of Inl x \<Rightarrow> Inl x | Inr (e1, r) \<Rightarrow> plays e1 cs)"

text \<open>
  An example deal. The deck is ordered so that the players receive, in turn, the hands
  \<open>example_hand 1\<close>, \<open>example_hand 2\<close>, ...; each hand holds one or two cards of every suit.
  The players are the objects at the references \<open>0, 1, 2, ...\<close>, and the shuffle of the
  players leaves them in that order.
\<close>

definition example_hand :: "nat \<Rightarrow> card list" where
  "example_hand r =
     (if r = 1 then [(7, HEARTS), (13, HEARTS), (10, DIAMONDS), (7, SPADES), (13, SPADES), (10, CLUBS)]
      else if r = 2 then [(8, HEARTS), (14, HEARTS), (11, DIAMONDS), (8, SPADES), (14, SPADES), (11, CLUBS)]
      else if r = 3 then [(9, HEARTS), (6, DIAMONDS), (12, DIAMONDS), (9, SPADES), (6, CLUBS), (12, CLUBS)]
      else if r = 4 then [(10, HEARTS), (7, DIAMONDS), (13, DIAMONDS), (10, SPADES), (7, CLUBS), (13, CLUBS)]
      else if r = 5 then [(11, HEARTS), (8, DIAMONDS), (14, DIAMONDS), (11, SPADES), (8, CLUBS), (14, CLUBS)]
      else [(6, HEARTS), (12, HEARTS), (9, DIAMONDS), (6, SPADES), (12, SPADES), (9, CLUBS)])"

definition example_deck :: "card list" where
  "example_deck = concat (map example_hand [1, 2, 3, 4, 5, 0])"


definition example_player :: "string \<Rightarrow> player" where
  "example_player nm = \<lparr>hand = [], trump_rank = None, initial_hand_size = HAND_SIZE, name = nm\<rparr>"

definition example_store :: "nat \<Rightarrow> player" where
  "example_store =
     (\<lambda>p. example_player ''nobody'')
       (0 := example_player ''p0'', 1 := example_player ''p1'', 2 := example_player ''p2'',
        3 := example_player ''p3'', 4 := example_player ''p4'', 5 := example_player ''p5'',
        6 := example_player ''p6'')"

text \<open>
  \<open>example_game n cs\<close> is the engine after \<open>reset\<close> with the players \<open>0, ..., n - 1\<close> and the
  example deck, and after the turns \<open>cs\<close>; where one of them fails it is the engine as
  constructed.
\<close>

definition example_game :: "nat \<Rightarrow> card list \<Rightarrow> env" where
  "example_game n cs =
     (case reset (init example_store [0..<n]) [0..<n] [example_deck] of
        Some (Inr (e, s)) \<Rightarrow>
          (case plays e cs of Inr e1 \<Rightarrow> e1 | Inl x \<Rightarrow> init example_store [0..<n])
      | _ \<Rightarrow> init example_store [0..<n])"

text \<open>
  A longer example: the first round of the six-player game, up to the last card but one.
  The defender then holds one card, the deck is empty since the deal, and the defender's
  answer \<open>(13, SPADES)\<close> completes the defence of six attacks.
\<close>

definition example_long_round :: "card list" where
  "example_long_round =
     [(6, HEARTS), (7, HEARTS), (6, SPADES), (7, SPADES), NO_CARD, NO_CARD,
      (6, DIAMONDS), (10, DIAMONDS), NO_CARD, NO_CARD,
      (6, CLUBS), (10, CLUBS), NO_CARD, NO_CARD, NO_CARD,
      (10, HEARTS), (13, HEARTS), NO_CARD, NO_CARD, NO_CARD,
      (10, SPADES)]"

text \<open>
  \<open>legal_plays e cs\<close> checks that the turns \<open>cs\<close> can be played from \<open>e\<close>: each card is in
  the legal list of its phase, is \<open>NO_CARD\<close> or a card of the turn player's hand, and the
  step succeeds.
\<close>

fun legal_plays :: "env \<Rightarrow> card list \<Rightarrow> bool" where
  "legal_plays e [] = True"
| "legal_plays e (c # cs) =
     (c \<in> set (if attack_phase e then legal_attacking_cards e else legal_defending_cards e)
      \<and> (case turn_player e of
            None \<Rightarrow> False
          | Some t \<Rightarrow> c = NO_CARD \<or> c \<in> set (hand (store e t)))
      \<and> (case play e c of Inl x \<Rightarrow> False | Inr (e1, r) \<Rightarrow> legal_plays e1 cs))"

text \<open>
  Two tables for the legal defending cards: one attack card \<open>(7, SPADES)\<close> with trump
  hearts, and the table after the attack \<open>(7, HEARTS)\<close>, its defence \<open>(8, HEARTS)\<close> and the
  attack \<open>(7, SPADES)\<close>.
\<close>

definition example_table :: env where
  "example_table =
     (init example_store [0, 1])\<lparr>attacking_cards := [(7, HEARTS), (7, SPADES)],
                                  defending_cards := [(8, HEARTS)]\<rparr>"

definition scenario_B :: env where
  "scenario_B = (init example_store [0, 1])\<lparr>attacking_cards := [(7, SPADES)]\<rparr>"

section \<open>Notions used to state the properties of the deal\<close>

text \<open>
  The spec's description of an illegal starting hand, in its own words: one suit accounts
  for at least \<open>HAND_SIZE - 1\<close> of the cards, or hearts and diamonds together are
  \<open>HAND_SIZE\<close> cards, or spades and clubs together are. It is compared with
  \<open>is_starting_hand_legal\<close> below.
\<close>

definition suit_count :: "int \<Rightarrow> card list \<Rightarrow> int" where
  "suit_count s h = int (length (filter (\<lambda>c. snd c = s) h))"

definition illegal_starting_hand_spec :: "card list \<Rightarrow> bool" where
  "illegal_starting_hand_spec h =
     (list_ex (\<lambda>s. suit_count s h \<ge> HAND_SIZE - 1) [HEARTS, DIAMONDS, SPADES, CLUBS]
      \<or> suit_count HEARTS h + suit_count DIAMONDS h = HAND_SIZE
      \<or> suit_count SPADES h + suit_count CLUBS h = HAND_SIZE)"

text \<open>
  One iteration of the deal loop of \<open>initialize_players\<close>, with the result of its shuffle:
  whether to deal again, and the engine it leaves.
\<close>

definition deal_of :: "card list \<Rightarrow> env \<Rightarrow> bool \<times> env" where
  "deal_of shuffled_deck e = deal_cards (reset_hands (e\<lparr>deck := shuffled_deck\<rparr>))"

section \<open>Reachable engines and the invariant of the table\<close>




section \<open>Facts about the Python list operations\<close>

lemma py_get_nth: "i < length xs \<Longrightarrow> py_get xs (int i) = Inr (xs ! i)"
  by (simp add: py_get_def)

lemma py_get_last: "xs \<noteq> [] \<Longrightarrow> py_get xs (- 1) = Inr (last xs)"
  by (cases xs rule: rev_cases) (simp_all add: py_get_def nat_add_distrib)

lemma py_index_nth: "distinct xs \<Longrightarrow> i < length xs \<Longrightarrow> py_index xs (xs ! i) = Inr (int i)"
proof (induction xs arbitrary: i)
  case Nil
  then show ?case by simp
next
  case (Cons y ys)
  show ?case
  proof (cases i)
    case 0
    then show ?thesis by simp
  next
    case (Suc j)
    with Cons.prems have "ys ! j \<noteq> y" "j < length ys" "distinct ys" by auto
    with Cons.IH [of j] Suc show ?thesis by (simp add: bind_err_def)
  qed
qed


lemma py_get_defender: "2 \<le> length xs \<Longrightarrow> py_get xs defender = Inr (xs ! 1)"
  using py_get_nth [of 1 xs] by (simp add: defender_def)

lemma py_get_attacker: "xs \<noteq> [] \<Longrightarrow> py_get xs attacker = Inr (xs ! 0)"
  using py_get_nth [of 0 xs] by (simp add: attacker_def)


section \<open>The attack and defence phases\<close>

text \<open>
  C5: in the attacking phase (the turn player is the ring member at position \<open>i\<close> of a ring
  of distinct players) a real card is appended to \<open>attacking_cards\<close> and the phase becomes
  the defence phase. \<open>NO_CARD\<close> played by the last ring member ends the round successfully.
  Otherwise \<open>NO_CARD\<close> moves the turn to the next ring member; where that is the defender
  (position 1) the turn goes on to the member after the defender, and where the defender is
  the last ring member the turn steps back to the attacker and the round ends successfully.
\<close>

theorem C5_attack_phase:
  assumes "distinct (active_players e)"
    and "i < length (active_players e)"
    and "turn_player e = Some (active_players e ! i)"
  shows "(last_action e \<noteq> NO_CARD \<longrightarrow>
            do_attack_phase e
              = Inr (e\<lparr>attacking_cards := attacking_cards e @ [last_action e], attack_phase := False\<rparr>))
       \<and> (last_action e = NO_CARD \<and> i = length (active_players e) - 1 \<longrightarrow>
            do_attack_phase e
              = Inr (e\<lparr>defending := False, successful := True, reset_attacker := True\<rparr>))
       \<and> (last_action e = NO_CARD \<and> i + 1 < length (active_players e) \<and> i + 1 \<noteq> nat defender \<longrightarrow>
            do_attack_phase e
              = Inr (e\<lparr>reset_attacker := False, turn_player := Some (active_players e ! (i + 1))\<rparr>))
       \<and> (last_action e = NO_CARD \<and> i + 1 = nat defender \<and> i + 2 < length (active_players e) \<longrightarrow>
            do_attack_phase e
              = Inr (e\<lparr>reset_attacker := False, turn_player := Some (active_players e ! (i + 2))\<rparr>))
       \<and> (last_action e = NO_CARD \<and> i + 1 = nat defender \<and> i + 2 = length (active_players e) \<longrightarrow>
            do_attack_phase e
              = Inr (e\<lparr>turn_player := Some (active_players e ! i), defending := False,
                       successful := True, reset_attacker := True\<rparr>))"
proof -
  let ?r = "active_players e"
  have ne: "?r \<noteq> []" using assms(2) by auto
  have lst: "py_get ?r (- 1) = Inr (?r ! (length ?r - 1))"
    using ne by (simp add: py_get_last last_conv_nth)
  have idx: "\<And>j. j < length ?r \<Longrightarrow> py_index ?r (?r ! j) = Inr (int j)"
    using assms(1) by (rule py_index_nth)
  have get: "\<And>j. j < length ?r \<Longrightarrow> py_get ?r (int j) = Inr (?r ! j)"
    by (rule py_get_nth)
  have eq: "\<And>j k. j < length ?r \<Longrightarrow> k < length ?r \<Longrightarrow> (?r ! j = ?r ! k) = (j = k)"
    using assms(1) by (simp add: nth_eq_iff_index_eq)
  have c1: "last_action e \<noteq> NO_CARD \<longrightarrow>
            do_attack_phase e
              = Inr (e\<lparr>attacking_cards := attacking_cards e @ [last_action e], attack_phase := False\<rparr>)"
    by (simp add: do_attack_phase_def)
  have c2: "last_action e = NO_CARD \<and> i = length ?r - 1 \<longrightarrow>
            do_attack_phase e
              = Inr (e\<lparr>defending := False, successful := True, reset_attacker := True\<rparr>)"
    using assms(3) by (simp add: do_attack_phase_def lst bind_err_def)
  have c3: "last_action e = NO_CARD \<and> i + 1 < length ?r \<and> i + 1 \<noteq> nat defender \<longrightarrow>
            do_attack_phase e
              = Inr (e\<lparr>reset_attacker := False, turn_player := Some (?r ! (i + 1))\<rparr>)"
  proof (intro impI, elim conjE)
    assume a: "last_action e = NO_CARD" "i + 1 < length ?r" "i + 1 \<noteq> nat defender"
    have g1: "py_get ?r (int i + 1) = Inr (?r ! (i + 1))"
      using get [of "i + 1"] a(2) by (simp add: add.commute)
    have gd: "py_get ?r defender = Inr (?r ! 1)"
      using get [of 1] a(2) by (simp add: defender_def)
    have "?r ! i \<noteq> ?r ! (length ?r - 1)" using eq [of i "length ?r - 1"] a(2) by auto
    moreover have "?r ! (i + 1) \<noteq> ?r ! 1" using eq [of "i + 1" 1] a(2,3) by (auto simp add: defender_def)
    ultimately show "do_attack_phase e
              = Inr (e\<lparr>reset_attacker := False, turn_player := Some (?r ! (i + 1))\<rparr>)"
      using a(1,2) assms(3) by (simp add: do_attack_phase_def lst bind_err_def idx g1 gd)
  qed
  have c4: "last_action e = NO_CARD \<and> i + 1 = nat defender \<and> i + 2 < length ?r \<longrightarrow>
            do_attack_phase e
              = Inr (e\<lparr>reset_attacker := False, turn_player := Some (?r ! (i + 2))\<rparr>)"
  proof (intro impI, elim conjE)
    assume a: "last_action e = NO_CARD" "i + 1 = nat defender" "i + 2 < length ?r"
    have i0: "i = 0" using a(2) by (simp add: defender_def)
    have idx0: "py_index ?r (?r ! 0) = Inr 0" using idx [of 0] ne by simp
    have idx1: "py_index ?r (?r ! Suc 0) = Inr 1" using idx [of 1] a(3) by simp
    have g1: "py_get ?r 1 = Inr (?r ! Suc 0)" using get [of 1] a(3) by simp
    have g2: "py_get ?r 2 = Inr (?r ! Suc (Suc 0))" using get [of 2] a(3) by (simp add: numeral_2_eq_2)
    have gd: "py_get ?r defender = Inr (?r ! Suc 0)" using g1 by (simp add: defender_def)
    have n0: "?r ! 0 \<noteq> ?r ! (length ?r - 1)" using eq [of 0 "length ?r - 1"] a(3) ne by auto
    have n1: "?r ! Suc 0 \<noteq> ?r ! (length ?r - 1)" using eq [of 1 "length ?r - 1"] a(3) by auto
    have t: "turn_player e = Some (?r ! 0)" using assms(3) i0 by simp
    show "do_attack_phase e
              = Inr (e\<lparr>reset_attacker := False, turn_player := Some (?r ! (i + 2))\<rparr>)"
      using n0 n1
      by (simp add: do_attack_phase_def a(1) t i0 lst bind_err_def idx0 idx1 g1 g2 gd)
  qed
  have c5: "last_action e = NO_CARD \<and> i + 1 = nat defender \<and> i + 2 = length ?r \<longrightarrow>
            do_attack_phase e
              = Inr (e\<lparr>turn_player := Some (?r ! i), defending := False,
                       successful := True, reset_attacker := True\<rparr>)"
  proof (intro impI, elim conjE)
    assume a: "last_action e = NO_CARD" "i + 1 = nat defender" "i + 2 = length ?r"
    have i0: "i = 0" using a(2) by (simp add: defender_def)
    have len: "length ?r = 2" using a(3) i0 by simp
    have idx0: "py_index ?r (?r ! 0) = Inr 0" using idx [of 0] ne by simp
    have idx1: "py_index ?r (?r ! Suc 0) = Inr 1" using idx [of 1] len by simp
    have g1: "py_get ?r 1 = Inr (?r ! Suc 0)" using get [of 1] len by simp
    have g0: "py_get ?r 0 = Inr (?r ! 0)" using get [of 0] len by simp
    have gd: "py_get ?r defender = Inr (?r ! Suc 0)" using g1 by (simp add: defender_def)
    have n0: "?r ! 0 \<noteq> ?r ! Suc 0" using eq [of 0 1] len by simp
    have t: "turn_player e = Some (?r ! 0)" using assms(3) i0 by simp
    have lst2: "py_get ?r (- 1) = Inr (?r ! Suc 0)" using lst len by simp
    show "do_attack_phase e
              = Inr (e\<lparr>turn_player := Some (?r ! i), defending := False,
                       successful := True, reset_attacker := True\<rparr>)"
      using n0
      by (simp add: do_attack_phase_def a(1) t i0 lst2 bind_err_def idx0 idx1 g1 g0 gd)
  qed
  from c1 c2 c3 c4 c5 show ?thesis by blast
qed

theorem C5_attack_phase_witness:
  "do_attack_phase ((example_game 4 [])\<lparr>last_action := (7, HEARTS)\<rparr>)
     = Inr ((example_game 4 [])\<lparr>last_action := (7, HEARTS),
              attacking_cards := [(7, HEARTS)], attack_phase := False\<rparr>)
   \<and> do_attack_phase ((example_game 4 [(7, HEARTS), (8, HEARTS), NO_CARD, NO_CARD])\<lparr>last_action := NO_CARD\<rparr>)
     = Inr ((example_game 4 [(7, HEARTS), (8, HEARTS), NO_CARD, NO_CARD])\<lparr>last_action := NO_CARD,
              defending := False, successful := True, reset_attacker := True\<rparr>)
   \<and> do_attack_phase ((example_game 4 [(7, HEARTS), (8, HEARTS), NO_CARD])\<lparr>last_action := NO_CARD\<rparr>)
     = Inr ((example_game 4 [(7, HEARTS), (8, HEARTS), NO_CARD])\<lparr>last_action := NO_CARD,
              reset_attacker := False, turn_player := Some 3\<rparr>)
   \<and> do_attack_phase ((example_game 4 [(7, HEARTS), (8, HEARTS)])\<lparr>last_action := NO_CARD\<rparr>)
     = Inr ((example_game 4 [(7, HEARTS), (8, HEARTS)])\<lparr>last_action := NO_CARD,
              reset_attacker := False, turn_player := Some 2\<rparr>)
   \<and> do_attack_phase ((example_game 2 [(7, HEARTS), (8, HEARTS)])\<lparr>last_action := NO_CARD\<rparr>)
     = Inr ((example_game 2 [(7, HEARTS), (8, HEARTS)])\<lparr>last_action := NO_CARD,
              turn_player := Some 0, defending := False, successful := True,
              reset_attacker := True\<rparr>)"
proof -
  let ?g1 = "example_game 4 []"
  let ?g2 = "example_game 4 [(7, HEARTS), (8, HEARTS), NO_CARD, NO_CARD]"
  let ?g3 = "example_game 4 [(7, HEARTS), (8, HEARTS), NO_CARD]"
  let ?g4 = "example_game 4 [(7, HEARTS), (8, HEARTS)]"
  let ?g5 = "example_game 2 [(7, HEARTS), (8, HEARTS)]"
  have n: "(7, HEARTS) \<noteq> NO_CARD" by code_simp
  have "(turn_player ?g1, active_players ?g1, attacking_cards ?g1) = (Some 0, [0, 1, 2, 3], [])"
    by code_simp
  then have g1: "turn_player ?g1 = Some 0" "active_players ?g1 = [0, 1, 2, 3]"
    "attacking_cards ?g1 = []" by simp_all
  have "(turn_player ?g2, active_players ?g2) = (Some 3, [0, 1, 2, 3])" by code_simp
  then have g2: "turn_player ?g2 = Some 3" "active_players ?g2 = [0, 1, 2, 3]" by simp_all
  have "(turn_player ?g3, active_players ?g3) = (Some 2, [0, 1, 2, 3])" by code_simp
  then have g3: "turn_player ?g3 = Some 2" "active_players ?g3 = [0, 1, 2, 3]" by simp_all
  have "(turn_player ?g4, active_players ?g4) = (Some 0, [0, 1, 2, 3])" by code_simp
  then have g4: "turn_player ?g4 = Some 0" "active_players ?g4 = [0, 1, 2, 3]" by simp_all
  have "(turn_player ?g5, active_players ?g5) = (Some 0, [0, 1])" by code_simp
  then have g5: "turn_player ?g5 = Some 0" "active_players ?g5 = [0, 1]" by simp_all
  have c1: "do_attack_phase (?g1\<lparr>last_action := (7, HEARTS)\<rparr>)
     = Inr (?g1\<lparr>last_action := (7, HEARTS), attacking_cards := [(7, HEARTS)], attack_phase := False\<rparr>)"
    using C5_attack_phase [of "?g1\<lparr>last_action := (7, HEARTS)\<rparr>" 0] g1 n by simp
  have c2: "do_attack_phase (?g2\<lparr>last_action := NO_CARD\<rparr>)
     = Inr (?g2\<lparr>last_action := NO_CARD, defending := False, successful := True, reset_attacker := True\<rparr>)"
    using C5_attack_phase [of "?g2\<lparr>last_action := NO_CARD\<rparr>" 3] g2 by simp
  have c3: "do_attack_phase (?g3\<lparr>last_action := NO_CARD\<rparr>)
     = Inr (?g3\<lparr>last_action := NO_CARD, reset_attacker := False, turn_player := Some 3\<rparr>)"
    using C5_attack_phase [of "?g3\<lparr>last_action := NO_CARD\<rparr>" 2] g3 by (simp add: defender_def)
  have c4: "do_attack_phase (?g4\<lparr>last_action := NO_CARD\<rparr>)
     = Inr (?g4\<lparr>last_action := NO_CARD, reset_attacker := False, turn_player := Some 2\<rparr>)"
    using C5_attack_phase [of "?g4\<lparr>last_action := NO_CARD\<rparr>" 0] g4 by (simp add: defender_def)
  have c5: "do_attack_phase (?g5\<lparr>last_action := NO_CARD\<rparr>)
     = Inr (?g5\<lparr>last_action := NO_CARD, turn_player := Some 0, defending := False,
              successful := True, reset_attacker := True\<rparr>)"
    using C5_attack_phase [of "?g5\<lparr>last_action := NO_CARD\<rparr>" 0] g5 by (simp add: defender_def)
  from c1 c2 c3 c4 c5 show ?thesis by (intro conjI)
qed

text \<open>
  C4: in the defence phase, with the defender (ring position 1) as the turn player, a real
  card is appended to \<open>defending_cards\<close> and the phase is the attack phase again; if then
  both table lists have \<open>limit\<close> cards the round ends successfully. \<open>NO_CARD\<close> ends the
  round unsuccessfully and moves every card of both table lists into the defender's hand,
  whose size grows by the two lengths.
\<close>

theorem C4_defence_phase:
  assumes "turn_player e = Some t"
    and "py_get (active_players e) defender = Inr t"
  shows "(last_action e \<noteq> NO_CARD \<longrightarrow>
           (\<exists>e'. do_defence_phase e = Inr e'
              \<and> defending_cards e' = defending_cards e @ [last_action e]
              \<and> attacking_cards e' = attacking_cards e
              \<and> attack_phase e'
              \<and> (if int (length (attacking_cards e')) = int (length (defending_cards e'))
                     \<and> int (length (defending_cards e')) = limit e
                  then \<not> defending e' \<and> successful e'
                  else defending e' = defending e \<and> successful e' = successful e)))
       \<and> (last_action e = NO_CARD \<longrightarrow>
           (\<exists>e'. do_defence_phase e = Inr e'
              \<and> \<not> defending e' \<and> \<not> successful e'
              \<and> hand (store e' t) = hand (store e t) @ attacking_cards e @ defending_cards e
              \<and> hand_size (store e' t)
                  = hand_size (store e t) + int (length (attacking_cards e))
                    + int (length (defending_cards e))))"
  using assms
  by (auto simp add: do_defence_phase_def Let_def on_player_def take_cards_def hand_size_def)

theorem C4_defence_phase_witness:
  "turn_player (example_game 2 [(7, HEARTS)]) = Some 1
   \<and> py_get (active_players (example_game 2 [(7, HEARTS)])) defender = Inr 1
   \<and> (\<exists>e'. do_defence_phase ((example_game 2 [(7, HEARTS)])\<lparr>last_action := (8, HEARTS)\<rparr>) = Inr e'
          \<and> defending_cards e' = [(8, HEARTS)] \<and> attacking_cards e' = [(7, HEARTS)]
          \<and> attack_phase e' \<and> defending e')
   \<and> (\<exists>e'. do_defence_phase ((example_game 2 [(7, HEARTS)])\<lparr>last_action := NO_CARD\<rparr>) = Inr e'
          \<and> \<not> defending e' \<and> \<not> successful e'
          \<and> hand (store e' 1) = example_hand 2 @ [(7, HEARTS)]
          \<and> hand_size (store e' 1) = 7)"
proof -
  let ?g = "example_game 2 [(7, HEARTS)]"
  have t: "turn_player ?g = Some 1" by code_simp
  have d: "py_get (active_players ?g) defender = Inr 1" by code_simp
  have v: "attacking_cards ?g = [(7, HEARTS)]" "defending_cards ?g = []" "limit ?g = 6"
    "defending ?g" "hand (store ?g 1) = example_hand 2"
    by code_simp+
  have n: "(8, HEARTS) \<noteq> NO_CARD" by code_simp
  have a: "\<exists>e'. do_defence_phase (?g\<lparr>last_action := (8, HEARTS)\<rparr>) = Inr e'
          \<and> defending_cards e' = [(8, HEARTS)] \<and> attacking_cards e' = [(7, HEARTS)]
          \<and> attack_phase e' \<and> defending e'"
    using C4_defence_phase [of "?g\<lparr>last_action := (8, HEARTS)\<rparr>" 1] t d v n by auto
  have b: "\<exists>e'. do_defence_phase (?g\<lparr>last_action := NO_CARD\<rparr>) = Inr e'
          \<and> \<not> defending e' \<and> \<not> successful e'
          \<and> hand (store e' 1) = example_hand 2 @ [(7, HEARTS)]
          \<and> hand_size (store e' 1) = 7"
    using C4_defence_phase [of "?g\<lparr>last_action := NO_CARD\<rparr>" 1] t d v
    by (auto simp add: hand_size_def example_hand_def)
  from t d a b show ?thesis by (intro conjI)
qed

section \<open>Rotation of the ring\<close>

lemma no_winners: "\<forall>p\<in>set (active_players e). hand_size (store e p) \<noteq> 0
    \<Longrightarrow> remove_winners e = e"
proof -
  assume "\<forall>p\<in>set (active_players e). hand_size (store e p) \<noteq> 0"
  then have "filter (\<lambda>p. hand_size (store e p) = 0) (active_players e) = []"
    by (simp add: filter_empty_conv)
  then show ?thesis by (simp add: remove_winners_def)
qed

lemma update_order_two:
  assumes "active_players e = x # y # zs"
  shows "update_active_players_order e =
    Inr (e\<lparr>active_players :=
            rotate ((if Some x = attacking_player e then 1 else 0) + (if successful e then 0 else 1))
              (active_players e)\<rparr>)"
  using assms
  by (simp add: update_active_players_order_def MIN_PLAYERS_def py_get_def attacker_def
      bind_err_def move_attacker_back_def)


text \<open>
  C3: when at least two players remain after the winners are removed, the ring is rotated
  once if its first member is still the player who started the round as attacker, and once
  more if the round was not successful; if the removal has moved another player to the
  front, only the rotation for a failed defence is left. So after a failed defence with
  three or more players, none of them removed, the new attacker is the member two places
  after the old one.
\<close>

theorem C3_rotation:
  assumes "2 \<le> length (active_players (remove_winners e))"
  shows "(\<exists>e'. update_active_players_order (remove_winners e) = Inr e'
            \<and> active_players e' =
                rotate ((if Some (hd (active_players (remove_winners e))) = attacking_player e
                         then 1 else 0)
                        + (if successful e then 0 else 1))
                  (active_players (remove_winners e))
            \<and> ((\<forall>p\<in>set (active_players e). hand_size (store e p) \<noteq> 0)
                 \<and> 3 \<le> length (active_players e)
                 \<and> attacking_player e = Some (active_players e ! 0)
                 \<and> \<not> successful e
                \<longrightarrow> active_players e' ! 0 = active_players e ! 2))"
proof -
  let ?w = "remove_winners e"
  obtain x y zs where r: "active_players ?w = x # y # zs"
    using assms by (cases "active_players ?w"; cases "tl (active_players ?w)") auto
  have f: "attacking_player ?w = attacking_player e" "successful ?w = successful e"
    by (simp_all add: remove_winners_def)
  have u: "update_active_players_order ?w =
    Inr (?w\<lparr>active_players :=
            rotate ((if Some x = attacking_player e then 1 else 0) + (if successful e then 0 else 1))
              (active_players ?w)\<rparr>)"
    using update_order_two [OF r] f by simp
  have c: "(\<forall>p\<in>set (active_players e). hand_size (store e p) \<noteq> 0)
                 \<and> 3 \<le> length (active_players e)
                 \<and> attacking_player e = Some (active_players e ! 0)
                 \<and> \<not> successful e
      \<longrightarrow> rotate ((if Some x = attacking_player e then 1 else 0) + (if successful e then 0 else 1))
              (active_players ?w) ! 0 = active_players e ! 2"
  proof (intro impI, elim conjE)
    assume a: "\<forall>p\<in>set (active_players e). hand_size (store e p) \<noteq> 0"
      "3 \<le> length (active_players e)" "attacking_player e = Some (active_players e ! 0)"
      "\<not> successful e"
    have w: "?w = e" using a(1) by (rule no_winners)
    then have r': "active_players e = x # y # zs" using r by simp
    then obtain z zs' where zs: "zs = z # zs'" using a(2) by (cases zs) auto
    show "rotate ((if Some x = attacking_player e then 1 else 0) + (if successful e then 0 else 1))
              (active_players ?w) ! 0 = active_players e ! 2"
      using a(3,4) by (simp add: w r' zs)
  qed
  show ?thesis using u c r by simp
qed

theorem C3_rotation_witness:
  "2 \<le> length (active_players (remove_winners (example_game 3 [(7, HEARTS)])))
   \<and> list_all (\<lambda>p. hand_size (store (example_game 3 [(7, HEARTS)]) p) \<noteq> 0)
        (active_players (example_game 3 [(7, HEARTS)]))
   \<and> 3 \<le> length (active_players (example_game 3 [(7, HEARTS)]))
   \<and> attacking_player (example_game 3 [(7, HEARTS)])
        = Some (active_players (example_game 3 [(7, HEARTS)]) ! 0)
   \<and> \<not> successful (example_game 3 [(7, HEARTS)])
   \<and> (\<exists>e'. update_active_players_order (remove_winners (example_game 3 [(7, HEARTS)])) = Inr e'
          \<and> active_players e' = [2, 0, 1]
          \<and> active_players e' ! 0 = active_players (example_game 3 [(7, HEARTS)]) ! 2)"
proof -
  let ?g = "example_game 3 [(7, HEARTS)]"
  have "(active_players (remove_winners ?g), active_players ?g, attacking_player ?g, successful ?g)
        = ([0, 1, 2], [0, 1, 2], Some 0, False)"
    by code_simp
  then have f: "active_players (remove_winners ?g) = [0, 1, 2]"
    "active_players ?g = [0, 1, 2]" "attacking_player ?g = Some 0" "\<not> successful ?g"
    by simp_all
  have l: "list_all (\<lambda>p. hand_size (store ?g p) \<noteq> 0) (active_players ?g)"
    by code_simp
  have h: "2 \<le> length (active_players (remove_winners ?g))" using f(1) by simp
  have b: "\<forall>p\<in>set (active_players ?g). hand_size (store ?g p) \<noteq> 0"
    using l by (simp only: list_all_iff)
  have "\<exists>e'. update_active_players_order (remove_winners ?g) = Inr e'
          \<and> active_players e' = [2, 0, 1]
          \<and> active_players e' ! 0 = active_players ?g ! 2"
    using C3_rotation [OF h] b f by (auto simp add: numeral_2_eq_2)
  with h l f show ?thesis by (intro conjI) simp_all
qed

section \<open>Legal cards\<close>

lemma legal_cards_loop_keeps:
  "set la \<subseteq> set (fst (legal_cards_loop att dfd trump cs (la, ld)))
   \<and> set ld \<subseteq> set (snd (legal_cards_loop att dfd trump cs (la, ld)))"
proof (induction cs arbitrary: la ld)
  case Nil
  then show ?case by simp
next
  case (Cons c cs)
  show ?case
    unfolding legal_cards_loop.simps Let_def
    by (rule conjI; rule subset_trans [OF _ Cons.IH [THEN conjunct1]] subset_trans [OF _ Cons.IH [THEN conjunct2]]; auto)
qed



lemma update_legal_cards_cases:
  "update_legal_cards e =
     (if attacking_cards e = [] then
        e\<lparr>legal_attacking_cards := get_full_list_of_cards, legal_defending_cards := [NO_CARD]\<rparr>
      else
        e\<lparr>legal_attacking_cards :=
            fst (legal_cards_loop (attacking_cards e) (defending_cards e) (trump_suit e)
                   get_full_list_of_cards ([NO_CARD], [NO_CARD])),
          legal_defending_cards :=
            snd (legal_cards_loop (attacking_cards e) (defending_cards e) (trump_suit e)
                   get_full_list_of_cards ([NO_CARD], [NO_CARD]))\<rparr>)"
  by (simp add: update_legal_cards_def split: prod.splits)

lemma update_legal_cards_NO_CARD_defending:
  "NO_CARD \<in> set (legal_defending_cards (update_legal_cards e))"
proof (cases "attacking_cards e = []")
  case True
  then show ?thesis by (simp add: update_legal_cards_cases)
next
  case False
  have "set [NO_CARD] \<subseteq> set (snd (legal_cards_loop (attacking_cards e) (defending_cards e)
      (trump_suit e) get_full_list_of_cards ([NO_CARD], [NO_CARD])))"
    using legal_cards_loop_keeps by blast
  with False show ?thesis by (simp add: update_legal_cards_cases)
qed

lemma update_legal_cards_NO_CARD_attacking:
  assumes "attacking_cards e \<noteq> []"
  shows "NO_CARD \<in> set (legal_attacking_cards (update_legal_cards e))"
proof -
  have "set [NO_CARD] \<subseteq> set (fst (legal_cards_loop (attacking_cards e) (defending_cards e)
      (trump_suit e) get_full_list_of_cards ([NO_CARD], [NO_CARD])))"
    using legal_cards_loop_keeps by blast
  with assms show ?thesis by (simp add: update_legal_cards_cases)
qed

lemma update_legal_cards_frame:
  "turn_player (update_legal_cards e) = turn_player e"
  "active_players (update_legal_cards e) = active_players e"
  "store (update_legal_cards e) = store e"
  "attacking_cards (update_legal_cards e) = attacking_cards e"
  "defending_cards (update_legal_cards e) = defending_cards e"
  "limit (update_legal_cards e) = limit e"
  "defending (update_legal_cards e) = defending e"
  "attack_phase (update_legal_cards e) = attack_phase e"
  "reset_round (update_legal_cards e) = reset_round e"
  "reward (update_legal_cards e) = reward e"
  by (simp_all add: update_legal_cards_cases)


lemma get_available_actions_eq:
  assumes "turn_player e = Some t" and "2 \<le> length (active_players e)"
  shows "get_available_actions e
           = Inr (set (hand (store e t))
                  \<inter> set (if t = active_players e ! 1 then legal_defending_cards e
                         else legal_attacking_cards e))"
  using assms py_get_defender [OF assms(2)]
  by (simp add: get_available_actions_def bind_err_def state_def)




lemma get_available_actions_after_update:
  assumes "turn_player e = Some t"
    and "2 \<le> length (active_players e)"
  shows "get_available_actions (update_legal_cards e)
           = Inr (set (hand (store e t))
                  \<inter> set (if t = active_players e ! 1 then legal_defending_cards (update_legal_cards e)
                         else legal_attacking_cards (update_legal_cards e)))"
proof -
  have "turn_player (update_legal_cards e) = Some t" "2 \<le> length (active_players (update_legal_cards e))"
    using assms by (simp_all only: update_legal_cards_frame)
  from get_available_actions_eq [OF this] show ?thesis
    by (simp only: update_legal_cards_frame)
qed



lemma pass_legal_when_no_action:
  assumes "turn_player e = Some t"
    and "2 \<le> length (active_players e)"
    and a: "get_available_actions (update_legal_cards e) = Inr {}" "hand (store e t) \<noteq> []"
      "set (hand (store e t)) \<subseteq> set get_full_list_of_cards"
  shows "NO_CARD \<in> set (if t = active_players e ! 1
                               then legal_defending_cards (update_legal_cards e)
                               else legal_attacking_cards (update_legal_cards e))"
proof (cases "t = active_players e ! 1")
  case True
  show ?thesis unfolding if_P [OF True] by (rule update_legal_cards_NO_CARD_defending)
next
  case False
  have "attacking_cards e \<noteq> []"
  proof
    assume em: "attacking_cards e = []"
    have la: "legal_attacking_cards (update_legal_cards e) = get_full_list_of_cards"
      unfolding update_legal_cards_cases [of e] if_P [OF em] by simp
    have "Inr (set (hand (store e t)) \<inter> set get_full_list_of_cards) = (Inr {} :: error + card set)"
      using get_available_actions_after_update [OF assms(1,2)] a(1) unfolding if_not_P [OF False] la by (rule trans [OF sym])
    then have "set (hand (store e t)) \<inter> set get_full_list_of_cards = {}"
      by (rule Inr_inject)
    then have "set (hand (store e t)) = {}" using Int_absorb2 [OF a(3)] by simp
    then show False using a(2) by (simp only: set_empty)
  qed
  then have "NO_CARD \<in> set (legal_attacking_cards (update_legal_cards e))"
    by (rule update_legal_cards_NO_CARD_attacking)
  then show ?thesis unfolding if_not_P [OF False] .
qed

text \<open>
  C10: when the turn player's hand does not hold \<open>NO_CARD\<close>, \<open>get_available_actions\<close> is
  the intersection of that hand with \<open>legal_defending_cards\<close> if the turn player is at the
  defender's position and with \<open>legal_attacking_cards\<close> otherwise, and \<open>NO_CARD\<close> is not in
  it. Once the legal cards are up to date, an empty result for a player who holds cards of
  the deck leaves \<open>NO_CARD\<close> among that player's legal cards.
\<close>

theorem C10_available_actions:
  assumes "turn_player e = Some t"
    and "2 \<le> length (active_players e)"
    and "NO_CARD \<notin> set (hand (store e t))"
  shows "get_available_actions e
           = Inr (set (hand (store e t))
                  \<inter> set (if t = active_players e ! 1 then legal_defending_cards e
                         else legal_attacking_cards e))
       \<and> (\<exists>A. get_available_actions e = Inr A \<and> NO_CARD \<notin> A)
       \<and> (get_available_actions (update_legal_cards e) = Inr {}
            \<and> hand (store e t) \<noteq> []
            \<and> set (hand (store e t)) \<subseteq> set get_full_list_of_cards
           \<longrightarrow> NO_CARD \<in> set (if t = active_players e ! 1
                               then legal_defending_cards (update_legal_cards e)
                               else legal_attacking_cards (update_legal_cards e)))"
proof (intro conjI impI)
  show c1: "get_available_actions e
           = Inr (set (hand (store e t))
                  \<inter> set (if t = active_players e ! 1 then legal_defending_cards e
                         else legal_attacking_cards e))"
    using assms(1,2) by (rule get_available_actions_eq)
  show "\<exists>A. get_available_actions e = Inr A \<and> NO_CARD \<notin> A"
    using c1 assms(3) by simp
next
  assume a: "get_available_actions (update_legal_cards e) = Inr {}
            \<and> hand (store e t) \<noteq> []
            \<and> set (hand (store e t)) \<subseteq> set get_full_list_of_cards"
  show "NO_CARD \<in> set (if t = active_players e ! 1
                               then legal_defending_cards (update_legal_cards e)
                               else legal_attacking_cards (update_legal_cards e))"
    using assms(1,2) a [THEN conjunct1] a [THEN conjunct2, THEN conjunct1]
      a [THEN conjunct2, THEN conjunct2]
    by (rule pass_legal_when_no_action)
qed

theorem C10_available_actions_witness:
  "turn_player (example_game 2 [(7, HEARTS)]) = Some 1
   \<and> 2 \<le> length (active_players (example_game 2 [(7, HEARTS)]))
   \<and> NO_CARD \<notin> set (hand (store (example_game 2 [(7, HEARTS)]) 1))
   \<and> get_available_actions (example_game 2 [(7, HEARTS)]) = Inr {(8, HEARTS), (14, HEARTS)}
   \<and> turn_player (example_game 2 [(7, HEARTS), (8, HEARTS), (7, SPADES), (8, SPADES)]) = Some 0
   \<and> get_available_actions
        (update_legal_cards (example_game 2 [(7, HEARTS), (8, HEARTS), (7, SPADES), (8, SPADES)]))
        = Inr {}
   \<and> NO_CARD \<in> set (legal_attacking_cards
        (update_legal_cards (example_game 2 [(7, HEARTS), (8, HEARTS), (7, SPADES), (8, SPADES)])))"
proof -
  let ?g = "example_game 2 [(7, HEARTS)]"
  let ?h = "example_game 2 [(7, HEARTS), (8, HEARTS), (7, SPADES), (8, SPADES)]"
  have "(turn_player ?g, active_players ?g, NO_CARD \<in> set (hand (store ?g 1)),
         set (hand (store ?g 1)) \<inter> set (legal_defending_cards ?g))
        = (Some 1, [0, 1], False, {(8, HEARTS), (14, HEARTS)})"
    by code_simp
  then have g: "turn_player ?g = Some 1" "active_players ?g = [0, 1]"
    "NO_CARD \<notin> set (hand (store ?g 1))"
    "set (hand (store ?g 1)) \<inter> set (legal_defending_cards ?g) = {(8, HEARTS), (14, HEARTS)}"
    by simp_all
  have g2: "2 \<le> length (active_players ?g)" using g(2) by simp
  have c1: "get_available_actions ?g = Inr {(8, HEARTS), (14, HEARTS)}"
    using C10_available_actions [OF g(1) g2 g(3)] g(2,4) by simp
  have "(turn_player ?h, active_players ?h, NO_CARD \<in> set (hand (store ?h 0)),
         hand (store ?h 0) = [],
         list_all (\<lambda>c. c \<in> set get_full_list_of_cards) (hand (store ?h 0)),
         get_available_actions (update_legal_cards ?h))
        = (Some 0, [0, 1], False, False, True, Inr {})"
    by code_simp
  then have h: "turn_player ?h = Some 0" "active_players ?h = [0, 1]"
    "NO_CARD \<notin> set (hand (store ?h 0))" "hand (store ?h 0) \<noteq> []"
    "list_all (\<lambda>c. c \<in> set get_full_list_of_cards) (hand (store ?h 0))"
    "get_available_actions (update_legal_cards ?h) = Inr {}"
    by simp_all
  have h2: "2 \<le> length (active_players ?h)" using h(2) by simp
  have hs: "set (hand (store ?h 0)) \<subseteq> set get_full_list_of_cards"
    using h(5) by (auto simp only: list_all_iff)
  have c2: "NO_CARD \<in> set (legal_attacking_cards (update_legal_cards ?h))"
    using C10_available_actions [OF h(1) h2 h(3)] h(2,4,6) hs by simp
  from g(1) g2 g(3) c1 h(1) h(6) c2 show ?thesis by (intro conjI)
qed

section \<open>Round resolution: what each part leaves unchanged\<close>

lemma bind_err_Inr: "bind_err r f = Inr y \<Longrightarrow> \<exists>v. r = Inr v \<and> f v = Inr y"
  by (cases r) (simp_all add: bind_err_def)

lemma on_player_id: "on_player e p (\<lambda>pl. pl) = e"
  by (simp add: on_player_def)

lemma update_end_round_players_loop_id:
  "update_end_round_players_loop ps e = Inr e' \<Longrightarrow> e' = e"
proof (induction ps arbitrary: e)
  case Nil
  then show ?case by simp
next
  case (Cons p ps)
  from Cons.prems obtain d where
    "update_end_round_players_loop ps
       (on_player e p (\<lambda>pl. update_end_round pl (name (store e d))
                               (attacking_cards e, defending_cards e) (successful e))) = Inr e'"
    by (auto dest!: bind_err_Inr)
  then have "update_end_round_players_loop ps e = Inr e'"
    by (simp add: update_end_round_def on_player_id)
  then show ?case by (rule Cons.IH)
qed

lemma update_end_round_players_id: "update_end_round_players e = Inr e' \<Longrightarrow> e' = e"
  unfolding update_end_round_players_def by (rule update_end_round_players_loop_id)

lemma refill_player_frame:
  "active_players (refill_player e p) = active_players e
   \<and> attacking_player (refill_player e p) = attacking_player e
   \<and> turn_player (refill_player e p) = turn_player e
   \<and> attacking_cards (refill_player e p) = attacking_cards e
   \<and> defending_cards (refill_player e p) = defending_cards e
   \<and> defending (refill_player e p) = defending e
   \<and> successful (refill_player e p) = successful e
   \<and> limit (refill_player e p) = limit e
   \<and> reset_round (refill_player e p) = reset_round e
   \<and> attack_phase (refill_player e p) = attack_phase e
   \<and> reward (refill_player e p) = reward e"
  by (simp add: refill_player_def on_player_def draw_def)

lemma refill_loop_frame:
  "active_players (refill_loop ps e) = active_players e
   \<and> attacking_player (refill_loop ps e) = attacking_player e
   \<and> turn_player (refill_loop ps e) = turn_player e
   \<and> attacking_cards (refill_loop ps e) = attacking_cards e
   \<and> defending_cards (refill_loop ps e) = defending_cards e
   \<and> defending (refill_loop ps e) = defending e
   \<and> successful (refill_loop ps e) = successful e
   \<and> limit (refill_loop ps e) = limit e
   \<and> reset_round (refill_loop ps e) = reset_round e
   \<and> attack_phase (refill_loop ps e) = attack_phase e
   \<and> reward (refill_loop ps e) = reward e"
  by (induction ps arbitrary: e) (simp_all add: refill_player_frame)

lemma update_players_hands_frame:
  assumes "update_players_hands e = Inr e'"
  shows "active_players e' = active_players e
   \<and> attacking_player e' = attacking_player e
   \<and> turn_player e' = turn_player e
   \<and> attacking_cards e' = attacking_cards e
   \<and> defending_cards e' = defending_cards e
   \<and> defending e' = defending e
   \<and> successful e' = successful e
   \<and> limit e' = limit e
   \<and> reset_round e' = reset_round e
   \<and> attack_phase e' = attack_phase e
   \<and> reward e' = reward e"
proof -
  from assms obtain ps x where "e' = refill_player (refill_loop ps e) x"
    by (auto simp add: update_players_hands_def Let_def dest!: bind_err_Inr)
  then show ?thesis by (simp add: refill_player_frame refill_loop_frame)
qed

lemma remove_winners_frame:
  "store (remove_winners e) = store e
   \<and> attacking_player (remove_winners e) = attacking_player e
   \<and> turn_player (remove_winners e) = turn_player e
   \<and> attacking_cards (remove_winners e) = attacking_cards e
   \<and> defending_cards (remove_winners e) = defending_cards e
   \<and> defending (remove_winners e) = defending e
   \<and> successful (remove_winners e) = successful e
   \<and> limit (remove_winners e) = limit e
   \<and> reset_round (remove_winners e) = reset_round e
   \<and> attack_phase (remove_winners e) = attack_phase e
   \<and> reward (remove_winners e) = reward e"
  by (simp add: remove_winners_def)

lemma mset_remove_all: "mset (remove_all ps ring) = mset ring - mset ps"
  by (induction ps arbitrary: ring) simp_all

lemma remove_winners_hands:
  assumes "p \<in> set (active_players (remove_winners e))"
  shows "hand_size (store e p) \<noteq> 0"
proof
  assume z: "hand_size (store e p) = 0"
  let ?P = "\<lambda>q. hand_size (store e q) = 0"
  have "count (mset (active_players (remove_winners e))) p
        = count (mset (active_players e)) p - count (mset (filter ?P (active_players e))) p"
    by (simp add: remove_winners_def mset_remove_all)
  also have "\<dots> = 0" using z by simp
  finally show False using assms by (simp add: count_eq_zero_iff del: count_mset)
qed

lemma move_attacker_back_frame:
  assumes "move_attacker_back e = Inr e'"
  shows "set (active_players e') = set (active_players e)
   \<and> length (active_players e') = length (active_players e)
   \<and> store e' = store e
   \<and> attacking_player e' = attacking_player e
   \<and> turn_player e' = turn_player e
   \<and> attacking_cards e' = attacking_cards e
   \<and> defending_cards e' = defending_cards e
   \<and> defending e' = defending e
   \<and> successful e' = successful e
   \<and> limit e' = limit e
   \<and> reset_round e' = reset_round e
   \<and> attack_phase e' = attack_phase e
   \<and> reward e' = reward e"
  using assms by (cases "active_players e") (auto simp add: move_attacker_back_def)

lemma update_active_players_order_frame:
  assumes "update_active_players_order e = Inr e'"
  shows "set (active_players e') = set (active_players e)
   \<and> length (active_players e') = length (active_players e)
   \<and> store e' = store e
   \<and> attacking_player e' = attacking_player e
   \<and> turn_player e' = turn_player e
   \<and> attacking_cards e' = attacking_cards e
   \<and> defending_cards e' = defending_cards e
   \<and> defending e' = defending e
   \<and> successful e' = successful e
   \<and> limit e' = limit e
   \<and> reset_round e' = reset_round e
   \<and> attack_phase e' = attack_phase e
   \<and> reward e' = reward e"
proof -
  consider "int (length (active_players e)) = 1"
    | "int (length (active_players e)) \<noteq> 1" "int (length (active_players e)) \<ge> MIN_PLAYERS"
    | "int (length (active_players e)) \<noteq> 1" "\<not> int (length (active_players e)) \<ge> MIN_PLAYERS"
    by blast
  then show ?thesis
  proof cases
    case 1
    with assms obtain p where "e' = e\<lparr>loser := Some p\<rparr>"
      by (auto simp add: update_active_players_order_def dest!: bind_err_Inr)
    then show ?thesis by simp
  next
    case 2
    with assms obtain a e1 where
      e1: "(if Some a = attacking_player e then move_attacker_back e else Inr e) = Inr e1"
      and e': "(if \<not> successful e1 then move_attacker_back e1 else Inr e1) = Inr e'"
      by (auto simp add: update_active_players_order_def dest!: bind_err_Inr)
    have 3: "e1 = e \<or> move_attacker_back e = Inr e1" using e1 by (auto split: if_splits)
    have 4: "e' = e1 \<or> move_attacker_back e1 = Inr e'" using e' by (auto split: if_splits)
    from 3 4 show ?thesis
      by (elim disjE) (simp_all add: move_attacker_back_frame)
  next
    case 3
    with assms have "e' = e" by (simp add: update_active_players_order_def)
    then show ?thesis by simp
  qed
qed

lemma check_end_round_frame:
  assumes "check_end_round e = Inr e'"
  shows "reset_round e' = (reset_round e \<or> \<not> defending e)
   \<and> active_players e' = active_players e
   \<and> store e' = store e
   \<and> attacking_player e' = attacking_player e
   \<and> attacking_cards e' = attacking_cards e
   \<and> defending_cards e' = defending_cards e
   \<and> defending e' = defending e
   \<and> successful e' = successful e
   \<and> limit e' = limit e
   \<and> attack_phase e' = attack_phase e
   \<and> reward e' = reward e"
  using assms
  by (auto simp add: check_end_round_def split: if_splits dest!: bind_err_Inr)

lemma do_reset_round_frame:
  assumes "do_reset_round e = Inr e'"
  shows "2 \<le> length (active_players e)
   \<and> active_players e' = active_players e
   \<and> store e' = store e
   \<and> attacking_player e' = Some (active_players e ! 0)
   \<and> turn_player e' = Some (active_players e ! 0)
   \<and> attacking_cards e' = []
   \<and> defending_cards e' = []
   \<and> defending e'
   \<and> \<not> successful e'
   \<and> limit e' = min HAND_SIZE (hand_size (store e (active_players e ! 1)))
   \<and> \<not> reset_round e'
   \<and> attack_phase e'
   \<and> reward e' = reward e"
proof -
  from assms obtain a d where a: "py_get (active_players e) attacker = Inr a"
    and d: "py_get (active_players e) defender = Inr d"
    and e': "e' = e\<lparr>attacking_cards := [], defending_cards := [],
                 legal_attacking_cards := [], legal_defending_cards := [],
                 turn_player := Some a, attacking_player := Some a,
                 defending := True, successful := False,
                 limit := min HAND_SIZE (hand_size (store e d)),
                 attack_phase := True, reset_attacker := True, reset_round := False\<rparr>"
    by (auto simp add: do_reset_round_def Let_def dest!: bind_err_Inr)
  from d have l: "2 \<le> length (active_players e)" and d1: "d = active_players e ! 1"
    by (auto simp add: py_get_def defender_def split: if_splits)
  from a l have a0: "a = active_players e ! 0"
    by (auto simp add: py_get_def attacker_def split: if_splits)
  show ?thesis using l by (simp add: e' a0 d1)
qed

lemma resolve_round_frame:
  assumes "resolve_round e = Inr e'"
  shows "reward e' = reward e
   \<and> 2 \<le> length (active_players e)
   \<and> (if game_over e'
       then attacking_cards e' = attacking_cards e \<and> defending_cards e' = defending_cards e
            \<and> limit e' = limit e \<and> defending e' = defending e
            \<and> attack_phase e' = attack_phase e \<and> reset_round e' = reset_round e
       else attacking_cards e' = [] \<and> defending_cards e' = [] \<and> defending e'
            \<and> attack_phase e' \<and> \<not> reset_round e' \<and> 1 \<le> limit e'
            \<and> 2 \<le> length (active_players e')
            \<and> limit e' = min HAND_SIZE (hand_size (store e' (active_players e' ! 1))))"
proof -
  from assms obtain e1 e2 e3 where
    1: "update_end_round_players e = Inr e1"
    and 2: "update_players_hands e1 = Inr e2"
    and 3: "update_active_players_order (remove_winners e2) = Inr e3"
    and 4: "(if \<not> game_over e3 then do_reset_round e3 else Inr e3) = Inr e'"
    by (auto simp add: resolve_round_def dest!: bind_err_Inr)
  have e1: "e1 = e" using 1 by (rule update_end_round_players_id)
  note f2 = update_players_hands_frame [OF 2]
  note fw = remove_winners_frame [of e2]
  note f3 = update_active_players_order_frame [OF 3]
  have len: "2 \<le> length (active_players e)"
    using 2 e1 by (auto simp add: update_players_hands_def Let_def py_get_def defender_def
        refill_loop_frame split: if_splits dest!: bind_err_Inr)
  have hands: "\<forall>p\<in>set (active_players e3). hand_size (store e3 p) \<noteq> 0"
    using remove_winners_hands [of _ e2] f3 fw by simp
  show ?thesis
  proof (cases "game_over e3")
    case True
    with 4 have "e' = e3" by simp
    with True f3 fw f2 e1 len show ?thesis by simp
  next
    case False
    with 4 have r: "do_reset_round e3 = Inr e'" by simp
    note f4 = do_reset_round_frame [OF r]
    have l3: "2 \<le> length (active_players e3)" using f4 by simp
    then have "active_players e3 ! 1 \<in> set (active_players e3)" by simp
    with hands have "hand_size (store e3 (active_players e3 ! 1)) \<noteq> 0" by blast
    then have "1 \<le> hand_size (store e3 (active_players e3 ! 1))"
      by (simp add: hand_size_def Suc_le_eq)
    then have lim: "1 \<le> limit e'" using f4 by (simp add: HAND_SIZE_def)
    have "\<not> game_over e'" using f4 l3 by (simp add: game_over_def MIN_PLAYERS_def)
    with f4 f3 fw f2 e1 lim len l3 show ?thesis by simp
  qed
qed

lemma step_D:
  assumes "step e a = Inr (e', res)"
  shows "\<exists>e1 r e2 e3.
     (if attack_phase e then do_attack_phase (e\<lparr>last_action := a, reward := 0\<rparr>)
      else do_defence_phase (e\<lparr>last_action := a, reward := 0\<rparr>)) = Inr e1
     \<and> calculate_reward e1 = Inr r
     \<and> check_end_round (e1\<lparr>reward := r\<rparr>) = Inr e2
     \<and> (if reset_round e2 then resolve_round e2 else Inr e2) = Inr e3
     \<and> e' = update_legal_cards e3
     \<and> res = (state e', reward e', game_over e')"
proof -
  let ?ph = "if attack_phase e then do_attack_phase (e\<lparr>last_action := a, reward := 0\<rparr>)
      else do_defence_phase (e\<lparr>last_action := a, reward := 0\<rparr>)"
  have a: "bind_err ?ph (\<lambda>e1.
         bind_err (calculate_reward e1) (\<lambda>r.
         bind_err (check_end_round (e1\<lparr>reward := r\<rparr>)) (\<lambda>e2.
         bind_err (if reset_round e2 then resolve_round e2 else Inr e2) (\<lambda>e3.
         Inr (update_legal_cards e3, (state (update_legal_cards e3),
              reward (update_legal_cards e3), game_over (update_legal_cards e3))))))) = Inr (e', res)"
    using assms by (simp add: step_def Let_def)
  from bind_err_Inr [OF a] obtain e1 where 1: "?ph = Inr e1"
    and b: "bind_err (calculate_reward e1) (\<lambda>r.
         bind_err (check_end_round (e1\<lparr>reward := r\<rparr>)) (\<lambda>e2.
         bind_err (if reset_round e2 then resolve_round e2 else Inr e2) (\<lambda>e3.
         Inr (update_legal_cards e3, (state (update_legal_cards e3),
              reward (update_legal_cards e3), game_over (update_legal_cards e3)))))) = Inr (e', res)"
    by (elim exE conjE)
  from bind_err_Inr [OF b] obtain r where 2: "calculate_reward e1 = Inr r"
    and c: "bind_err (check_end_round (e1\<lparr>reward := r\<rparr>)) (\<lambda>e2.
         bind_err (if reset_round e2 then resolve_round e2 else Inr e2) (\<lambda>e3.
         Inr (update_legal_cards e3, (state (update_legal_cards e3),
              reward (update_legal_cards e3), game_over (update_legal_cards e3))))) = Inr (e', res)"
    by (elim exE conjE)
  from bind_err_Inr [OF c] obtain e2 where 3: "check_end_round (e1\<lparr>reward := r\<rparr>) = Inr e2"
    and d: "bind_err (if reset_round e2 then resolve_round e2 else Inr e2) (\<lambda>e3.
         Inr (update_legal_cards e3, (state (update_legal_cards e3),
              reward (update_legal_cards e3), game_over (update_legal_cards e3)))) = Inr (e', res)"
    by (elim exE conjE)
  from bind_err_Inr [OF d] obtain e3 where
    4: "(if reset_round e2 then resolve_round e2 else Inr e2) = Inr e3"
    and 5: "Inr (update_legal_cards e3, (state (update_legal_cards e3),
              reward (update_legal_cards e3), game_over (update_legal_cards e3)))
            = (Inr (e', res) :: error + env \<times> (game_state \<times> int \<times> bool))"
    by (elim exE conjE)
  from 5 have 6: "e' = update_legal_cards e3" "res = (state e', reward e', game_over e')"
    by auto
  from 1 2 3 4 6 show ?thesis by (intro exI conjI)
qed


section \<open>The reward\<close>

lemma calculate_reward_D:
  assumes "calculate_reward e = Inr r"
  shows "\<exists>t. turn_player e = Some t
     \<and> r = (if hand (store e t) = [] \<and> deck e = [] then 30
            else if \<not> defending e \<and> successful e then 1
            else if \<not> defending e then - 1 else 0)"
  using assms
  by (auto simp add: calculate_reward_def hand_size_def current_num_cards_def
      split: option.splits if_splits)


text \<open>
  C7: the reward that \<open>step\<close> returns is computed right after the phase function, from the
  engine \<open>e1\<close> it leaves: 30 if the hand of the turn player of \<open>e1\<close> and the deck are both
  empty; otherwise 1 if the round has ended (\<open>defending\<close> is false) successfully, -1 if it has
  ended by a failed defence, and 0 if the round goes on.
\<close>

theorem C7_reward:
  assumes "step e action = Inr (e', gs, r, done)"
  shows "\<exists>e1 t.
     (if attack_phase e then do_attack_phase (e\<lparr>last_action := action, reward := 0\<rparr>)
      else do_defence_phase (e\<lparr>last_action := action, reward := 0\<rparr>)) = Inr e1
     \<and> turn_player e1 = Some t
     \<and> r = (if hand (store e1 t) = [] \<and> deck e1 = [] then 30
            else if \<not> defending e1 \<and> successful e1 then 1
            else if \<not> defending e1 then - 1 else 0)"
proof -
  from step_D [OF assms] obtain e1 r1 e2 e3 where
    1: "(if attack_phase e then do_attack_phase (e\<lparr>last_action := action, reward := 0\<rparr>)
      else do_defence_phase (e\<lparr>last_action := action, reward := 0\<rparr>)) = Inr e1"
    and 2: "calculate_reward e1 = Inr r1"
    and 3: "check_end_round (e1\<lparr>reward := r1\<rparr>) = Inr e2"
    and 4: "(if reset_round e2 then resolve_round e2 else Inr e2) = Inr e3"
    and 5: "e' = update_legal_cards e3"
    and 6: "(gs, r, done) = (state e', reward e', game_over e')"
    by blast
  have "reward e2 = r1" using check_end_round_frame [OF 3] by simp
  moreover have "reward e3 = reward e2"
    using 4 by (auto split: if_splits dest: resolve_round_frame)
  ultimately have "r = r1" using 5 6 by (simp add: update_legal_cards_frame)
  with calculate_reward_D [OF 2] 1 show ?thesis by blast
qed

theorem C7_reward_witness:
  "legal_plays (example_game 6 []) (example_long_round @ [(13, SPADES)])
   \<and> (\<exists>e' gs d. step (on_player (example_game 2 []) 0 (\<lambda>p. play_from_hand p (7, HEARTS))) (7, HEARTS)
        = Inr (e', gs, 0, d))
   \<and> (\<exists>e' gs d. step (example_game 2 [(7, HEARTS), (8, HEARTS)]) NO_CARD = Inr (e', gs, 1, d))
   \<and> (\<exists>e' gs d. step (example_game 3 [(7, HEARTS)]) NO_CARD = Inr (e', gs, - 1, d))
   \<and> (\<exists>e' gs d. step (on_player (example_game 6 example_long_round) 0
                          (\<lambda>p. play_from_hand p (13, SPADES))) (13, SPADES)
        = Inr (e', gs, 30, d))
   \<and> (\<exists>e1 t. (if attack_phase (on_player (example_game 6 example_long_round) 0
                                     (\<lambda>p. play_from_hand p (13, SPADES)))
                    then do_attack_phase
                      ((on_player (example_game 6 example_long_round) 0
                          (\<lambda>p. play_from_hand p (13, SPADES)))\<lparr>last_action := (13, SPADES), reward := 0\<rparr>)
                    else do_defence_phase
                      ((on_player (example_game 6 example_long_round) 0
                          (\<lambda>p. play_from_hand p (13, SPADES)))\<lparr>last_action := (13, SPADES), reward := 0\<rparr>))
                = Inr e1
            \<and> turn_player e1 = Some t \<and> hand (store e1 t) = [] \<and> deck e1 = [])"
proof -
  let ?a = "on_player (example_game 2 []) 0 (\<lambda>p. play_from_hand p (7, HEARTS))"
  let ?b = "example_game 2 [(7, HEARTS), (8, HEARTS)]"
  let ?c = "example_game 3 [(7, HEARTS)]"
  let ?d = "on_player (example_game 6 example_long_round) 0 (\<lambda>p. play_from_hand p (13, SPADES))"
  have "case step ?a (7, HEARTS) of Inl x \<Rightarrow> False | Inr (e', gs, r, d) \<Rightarrow> r = 0"
    by code_simp
  then have a: "\<exists>e' gs d. step ?a (7, HEARTS) = Inr (e', gs, 0, d)"
    by (auto split: sum.splits)
  have "case step ?b NO_CARD of Inl x \<Rightarrow> False | Inr (e', gs, r, d) \<Rightarrow> r = 1"
    by code_simp
  then have b: "\<exists>e' gs d. step ?b NO_CARD = Inr (e', gs, 1, d)"
    by (auto split: sum.splits)
  have "case step ?c NO_CARD of Inl x \<Rightarrow> False | Inr (e', gs, r, d) \<Rightarrow> r = - 1"
    by code_simp
  then have c: "\<exists>e' gs d. step ?c NO_CARD = Inr (e', gs, - 1, d)"
    by (auto split: sum.splits)
  have "case step ?d (13, SPADES) of Inl x \<Rightarrow> False | Inr (e', gs, r, d) \<Rightarrow> r = 30"
    by code_simp
  then have d: "\<exists>e' gs d. step ?d (13, SPADES) = Inr (e', gs, 30, d)"
    by (auto split: sum.splits)
  then obtain e' gs dn where s: "step ?d (13, SPADES) = Inr (e', gs, 30, dn)" by blast
  have w: "\<exists>e1 t. (if attack_phase ?d
                    then do_attack_phase (?d\<lparr>last_action := (13, SPADES), reward := 0\<rparr>)
                    else do_defence_phase (?d\<lparr>last_action := (13, SPADES), reward := 0\<rparr>))
                = Inr e1
            \<and> turn_player e1 = Some t \<and> hand (store e1 t) = [] \<and> deck e1 = []"
    using C7_reward [OF s] by (auto split: if_splits)
  have l: "legal_plays (example_game 6 []) (example_long_round @ [(13, SPADES)])"
    by code_simp
  from l a b c d w show ?thesis by (intro conjI)
qed

section \<open>Legal defending cards\<close>

text \<open>
  What the loop computes: the legal defending cards are \<open>NO_CARD\<close> followed by the cards
  of the deck, in its order, that are not among the defending cards and beat the last
  attacking card, as long as there are more attacking than defending cards.
\<close>

lemma legal_cards_loop_snd:
  "snd (legal_cards_loop att dfd trump cs (la, ld)) =
     ld @ filter (\<lambda>c. length att > length dfd \<and> c \<notin> set dfd
                       \<and> ((snd c = snd (last att) \<and> fst c > fst (last att))
                           \<or> (snd c = trump \<and> snd (last att) \<noteq> trump))) cs"
  by (induction cs arbitrary: la ld) (simp_all add: Let_def)

lemma legal_defending_cards_code:
  assumes "attacking_cards e \<noteq> []"
  shows "legal_defending_cards (update_legal_cards e) =
     NO_CARD # filter (\<lambda>c. length (attacking_cards e) > length (defending_cards e)
                       \<and> c \<notin> set (defending_cards e)
                       \<and> ((snd c = snd (last (attacking_cards e)) \<and> fst c > fst (last (attacking_cards e)))
                           \<or> (snd c = trump_suit e \<and> snd (last (attacking_cards e)) \<noteq> trump_suit e)))
                 get_full_list_of_cards"
  using assms by (simp add: update_legal_cards_cases legal_cards_loop_snd)

lemma legal_cards_loop_fst:
  "set (fst (legal_cards_loop att dfd trump cs (la, ld)))
     \<subseteq> set la \<union> {c \<in> set cs. c \<notin> set att \<and> c \<notin> set dfd}"
proof (induction cs arbitrary: la ld)
  case Nil
  show ?case by simp
next
  case (Cons c cs)
  show ?case
    unfolding legal_cards_loop.simps Let_def
    by (rule subset_trans [OF Cons.IH]) auto
qed

text \<open>
  The legal attacking cards, in contrast, leave out the cards of both table lists.
\<close>

lemma legal_attacking_cards_off_table:
  assumes "attacking_cards e \<noteq> []"
  shows "set (legal_attacking_cards (update_legal_cards e))
     \<subseteq> {NO_CARD} \<union> {c \<in> set get_full_list_of_cards.
                       c \<notin> set (attacking_cards e) \<and> c \<notin> set (defending_cards e)}"
  using assms legal_cards_loop_fst [of "attacking_cards e" "defending_cards e" "trump_suit e"
      get_full_list_of_cards "[NO_CARD]" "[NO_CARD]"]
  by (simp add: update_legal_cards_cases)

lemma legal_defending_cards_scenario_B:
  "legal_defending_cards (update_legal_cards scenario_B) =
     NO_CARD # filter (\<lambda>c. (snd c = SPADES \<and> fst c > 7) \<or> snd c = HEARTS) get_full_list_of_cards"
  by code_simp

text \<open>
  C6, evaluated where it fails: with the attacks \<open>(7, HEARTS)\<close>, \<open>(7, SPADES)\<close> and the
  defence \<open>(8, HEARTS)\<close> on the table, the legal defending cards contain the attacking card
  \<open>(7, HEARTS)\<close>: the loop leaves out the cards of \<open>defending_cards\<close> only.
\<close>

theorem C6_legal_defending_evaluation:
  "legal_defending_cards (update_legal_cards example_table) =
     [NO_CARD, (6, HEARTS), (7, HEARTS), (9, HEARTS), (10, HEARTS), (11, HEARTS), (12, HEARTS),
      (13, HEARTS), (14, HEARTS), (8, SPADES), (9, SPADES), (10, SPADES), (11, SPADES),
      (12, SPADES), (13, SPADES), (14, SPADES)]
   \<and> (7, HEARTS) \<in> set (attacking_cards example_table)
   \<and> (7, HEARTS) \<in> set (legal_defending_cards (update_legal_cards example_table))"
  by code_simp

text \<open>
  C1, evaluated where it fails: in the two-player example game the attacker plays
  \<open>(7, HEARTS)\<close>, the defender answers \<open>(8, HEARTS)\<close> and the attacker adds \<open>(7, SPADES)\<close>,
  each card legal and from the player's hand; in the state returned, \<open>(7, HEARTS)\<close> is both
  an attacking card on the table and a legal defending card.
\<close>

theorem C1_legal_card_on_table_evaluation:
  "map_option isl (reset (init example_store [0..<2]) [0..<2] [example_deck]) = Some False
   \<and> legal_plays (example_game 2 []) [(7, HEARTS), (8, HEARTS), (7, SPADES)]
   \<and> (7, HEARTS) \<in> set (attacking_cards (example_game 2 [(7, HEARTS), (8, HEARTS), (7, SPADES)]))
   \<and> (7, HEARTS) \<in> set (legal_defending_cards (example_game 2 [(7, HEARTS), (8, HEARTS), (7, SPADES)]))
   \<and> state (example_game 2 [(7, HEARTS), (8, HEARTS), (7, SPADES)]) =
       ([(7, HEARTS), (7, SPADES)], [(8, HEARTS)],
        [NO_CARD, (7, DIAMONDS), (8, DIAMONDS), (8, SPADES), (7, CLUBS), (8, CLUBS)],
        [NO_CARD, (6, HEARTS), (7, HEARTS), (9, HEARTS), (10, HEARTS), (11, HEARTS), (12, HEARTS),
         (13, HEARTS), (14, HEARTS), (8, SPADES), (9, SPADES), (10, SPADES), (11, SPADES),
         (12, SPADES), (13, SPADES), (14, SPADES)])"
  by code_simp

section \<open>Starting hands and the deal loop\<close>

lemma suits_distinct:
  "HEARTS \<noteq> DIAMONDS" "HEARTS \<noteq> SPADES" "HEARTS \<noteq> CLUBS"
  "DIAMONDS \<noteq> SPADES" "DIAMONDS \<noteq> CLUBS" "SPADES \<noteq> CLUBS"
  by (simp_all add: HEARTS_def DIAMONDS_def SPADES_def CLUBS_def)

lemma full_list_suits:
  "c \<in> set get_full_list_of_cards \<Longrightarrow> snd c \<in> {HEARTS, DIAMONDS, SPADES, CLUBS}"
  by (auto simp add: get_full_list_of_cards_def)

lemma count_suits_eq:
  assumes "\<forall>c\<in>set h. snd c \<in> {HEARTS, DIAMONDS, SPADES, CLUBS}"
  shows "count_suits h (a, b, c, d) =
     (a + suit_count HEARTS h, b + suit_count DIAMONDS h,
      c + suit_count SPADES h, d + suit_count CLUBS h)"
  using assms
proof (induction h arbitrary: a b c d)
  case Nil
  then show ?case by (simp add: suit_count_def)
next
  case (Cons x xs)
  then have IH: "\<And>a b c d. count_suits xs (a, b, c, d) =
     (a + suit_count HEARTS xs, b + suit_count DIAMONDS xs,
      c + suit_count SPADES xs, d + suit_count CLUBS xs)"
    by simp
  from Cons.prems have "snd x \<in> {HEARTS, DIAMONDS, SPADES, CLUBS}" by simp
  then show ?case using suits_distinct by (auto simp add: IH suit_count_def)
qed

lemma suit_count_total:
  assumes "\<forall>c\<in>set h. snd c \<in> {HEARTS, DIAMONDS, SPADES, CLUBS}"
  shows "suit_count HEARTS h + suit_count DIAMONDS h + suit_count SPADES h + suit_count CLUBS h
         = int (length h)"
  using assms
proof (induction h)
  case Nil
  then show ?case by (simp add: suit_count_def)
next
  case (Cons x xs)
  then have IH: "suit_count HEARTS xs + suit_count DIAMONDS xs + suit_count SPADES xs
      + suit_count CLUBS xs = int (length xs)" by simp
  from Cons.prems have "snd x \<in> {HEARTS, DIAMONDS, SPADES, CLUBS}" by simp
  then show ?case using suits_distinct IH by (auto simp add: suit_count_def)
qed

lemma suit_count_nonneg: "0 \<le> suit_count s h"
  by (simp add: suit_count_def)

lemma starting_hand_legal_iff:
  assumes "initial_hand_size p = HAND_SIZE"
    and "int (length (hand p)) = HAND_SIZE"
    and "set (hand p) \<subseteq> set get_full_list_of_cards"
  shows "is_starting_hand_legal p = (\<not> illegal_starting_hand_spec (hand p))"
proof -
  have s: "\<forall>c\<in>set (hand p). snd c \<in> {HEARTS, DIAMONDS, SPADES, CLUBS}"
    using assms(3) full_list_suits by blast
  define nh where "nh = suit_count HEARTS (hand p)"
  define nd where "nd = suit_count DIAMONDS (hand p)"
  define ns where "ns = suit_count SPADES (hand p)"
  define nc where "nc = suit_count CLUBS (hand p)"
  have tot: "nh + nd + ns + nc = 6"
    using suit_count_total [OF s] assms(2) by (simp add: nh_def nd_def ns_def nc_def HAND_SIZE_def)
  have pos: "0 \<le> nh" "0 \<le> nd" "0 \<le> ns" "0 \<le> nc"
    by (simp_all add: nh_def nd_def ns_def nc_def suit_count_nonneg)
  have l: "is_starting_hand_legal p = (\<not> (5 = nh \<or> 5 = nd \<or> 5 = ns \<or> 5 = nc
            \<or> nh + nd = 6 \<or> ns + nc = 6))"
    using count_suits_eq [OF s, of 0 0 0 0]
    by (simp add: is_starting_hand_legal_def assms(1) HAND_SIZE_def nh_def nd_def ns_def nc_def)
  have r: "illegal_starting_hand_spec (hand p) = (5 \<le> nh \<or> 5 \<le> nd \<or> 5 \<le> ns \<or> 5 \<le> nc
            \<or> nh + nd = 6 \<or> ns + nc = 6)"
    by (simp add: illegal_starting_hand_spec_def HAND_SIZE_def nh_def nd_def ns_def nc_def)
  show ?thesis unfolding l r using tot pos by auto
qed

lemma reset_hands_loop_frame:
  "reset_hands_loop ps e = e\<lparr>store := store (reset_hands_loop ps e)\<rparr>"
proof (induction ps arbitrary: e)
  case Nil
  show ?case by simp
next
  case (Cons p ps)
  let ?e1 = "on_player e p (\<lambda>pl. set_trump_rank (empty_hand pl) (trump_suit e))"
  have "reset_hands_loop ps ?e1 = ?e1\<lparr>store := store (reset_hands_loop ps ?e1)\<rparr>"
    by (rule Cons.IH)
  also have "\<dots> = e\<lparr>store := store (reset_hands_loop ps ?e1)\<rparr>"
    by (simp add: on_player_def)
  finally show ?case by simp
qed

lemma reset_hands_loop_store:
  "store (reset_hands_loop ps e) p =
     (if p \<in> set ps then (store e p)\<lparr>hand := [], trump_rank := Some (trump_suit e)\<rparr>
      else store e p)"
proof (induction ps arbitrary: e)
  case Nil
  show ?case by simp
next
  case (Cons q ps)
  show ?case
    by (simp add: Cons.IH on_player_def set_trump_rank_def empty_hand_def)
qed

lemma deal_cards_loop_frame:
  "snd (deal_cards_loop ps e) =
     e\<lparr>store := store (snd (deal_cards_loop ps e)), deck := deck (snd (deal_cards_loop ps e))\<rparr>"
proof (induction ps arbitrary: e)
  case Nil
  show ?case by simp
next
  case (Cons p ps)
  let ?e1 = "(on_player e p (\<lambda>pl. take_cards pl (take (nat HAND_SIZE) (deck e))))\<lparr>deck := drop (nat HAND_SIZE) (deck e)\<rparr>"
  have s: "deal_cards_loop (p # ps) e =
      (if \<not> is_starting_hand_legal (store ?e1 p) then (True, ?e1) else deal_cards_loop ps ?e1)"
    by (simp add: draw_def Let_def)
  have e1: "?e1 = e\<lparr>store := store ?e1, deck := deck ?e1\<rparr>"
    by (simp add: on_player_def)
  show ?case
  proof (cases "is_starting_hand_legal (store ?e1 p)")
    case False
    then have "snd (deal_cards_loop (p # ps) e) = ?e1" unfolding s by simp
    then show ?thesis using e1 by simp
  next
    case True
    then have r: "snd (deal_cards_loop (p # ps) e) = snd (deal_cards_loop ps ?e1)"
      unfolding s by simp
    have "snd (deal_cards_loop ps ?e1) =
       ?e1\<lparr>store := store (snd (deal_cards_loop ps ?e1)), deck := deck (snd (deal_cards_loop ps ?e1))\<rparr>"
      by (rule Cons.IH)
    also have "\<dots> = e\<lparr>store := store (snd (deal_cards_loop ps ?e1)), deck := deck (snd (deal_cards_loop ps ?e1))\<rparr>"
      by (simp add: on_player_def)
    finally show ?thesis unfolding r .
  qed
qed

lemma deal_cards_loop_player:
  "name (store (snd (deal_cards_loop ps e)) q) = name (store e q)
   \<and> initial_hand_size (store (snd (deal_cards_loop ps e)) q) = initial_hand_size (store e q)
   \<and> trump_rank (store (snd (deal_cards_loop ps e)) q) = trump_rank (store e q)
   \<and> length (hand (store e q)) \<le> length (hand (store (snd (deal_cards_loop ps e)) q))
   \<and> (q \<notin> set ps \<longrightarrow> store (snd (deal_cards_loop ps e)) q = store e q)"
proof (induction ps arbitrary: e)
  case Nil
  show ?case by simp
next
  case (Cons p ps)
  let ?e1 = "(on_player e p (\<lambda>pl. take_cards pl (take (nat HAND_SIZE) (deck e))))\<lparr>deck := drop (nat HAND_SIZE) (deck e)\<rparr>"
  have s: "deal_cards_loop (p # ps) e =
      (if \<not> is_starting_hand_legal (store ?e1 p) then (True, ?e1) else deal_cards_loop ps ?e1)"
    by (simp add: draw_def Let_def)
  have e1: "name (store ?e1 q) = name (store e q)
   \<and> initial_hand_size (store ?e1 q) = initial_hand_size (store e q)
   \<and> trump_rank (store ?e1 q) = trump_rank (store e q)
   \<and> length (hand (store e q)) \<le> length (hand (store ?e1 q))
   \<and> (q \<notin> set (p # ps) \<longrightarrow> store ?e1 q = store e q)"
    by (simp add: on_player_def take_cards_def)
  show ?case
  proof (cases "is_starting_hand_legal (store ?e1 p)")
    case False
    then have "snd (deal_cards_loop (p # ps) e) = ?e1" unfolding s by simp
    then show ?thesis using e1 by simp
  next
    case True
    then have r: "snd (deal_cards_loop (p # ps) e) = snd (deal_cards_loop ps ?e1)"
      unfolding s by simp
    show ?thesis unfolding r using Cons.IH [of ?e1] e1 by auto
  qed
qed

lemma deal_cards_loop_legal:
  "\<not> fst (deal_cards_loop ps e) \<Longrightarrow>
     \<forall>p\<in>set ps. is_starting_hand_legal (store (snd (deal_cards_loop ps e)) p)"
proof (induction ps arbitrary: e)
  case Nil
  show ?case by simp
next
  case (Cons p ps)
  let ?e1 = "(on_player e p (\<lambda>pl. take_cards pl (take (nat HAND_SIZE) (deck e))))\<lparr>deck := drop (nat HAND_SIZE) (deck e)\<rparr>"
  have s: "deal_cards_loop (p # ps) e =
      (if \<not> is_starting_hand_legal (store ?e1 p) then (True, ?e1) else deal_cards_loop ps ?e1)"
    by (simp add: draw_def Let_def)
  from Cons.prems have l: "is_starting_hand_legal (store ?e1 p)"
    unfolding s by (auto split: if_splits)
  then have r: "deal_cards_loop (p # ps) e = deal_cards_loop ps ?e1" unfolding s by simp
  from Cons.prems have n: "\<not> fst (deal_cards_loop ps ?e1)" unfolding r .
  have rest: "\<forall>q\<in>set ps. is_starting_hand_legal (store (snd (deal_cards_loop ps ?e1)) q)"
    using n by (rule Cons.IH)
  have "is_starting_hand_legal (store (snd (deal_cards_loop ps ?e1)) p)"
  proof (cases "p \<in> set ps")
    case True
    with rest show ?thesis by blast
  next
    case False
    then have "store (snd (deal_cards_loop ps ?e1)) p = store ?e1 p"
      using deal_cards_loop_player [of ps ?e1 p] by simp
    with l show ?thesis by simp
  qed
  with rest show ?case unfolding r by simp
qed

lemma deal_of_active_players: "active_players (snd (deal_of d e)) = active_players e"
proof -
  let ?r = "reset_hands (e\<lparr>deck := d\<rparr>)"
  have 1: "active_players ?r = active_players e"
    unfolding reset_hands_def by (subst reset_hands_loop_frame) simp
  have "active_players (snd (deal_of d e)) = active_players ?r"
    unfolding deal_of_def deal_cards_def by (subst deal_cards_loop_frame) simp
  with 1 show ?thesis by simp
qed

lemma deal_of_legal:
  assumes "\<not> fst (deal_of d e)"
  shows "\<forall>p\<in>set (active_players e). is_starting_hand_legal (store (snd (deal_of d e)) p)"
proof -
  let ?r = "reset_hands (e\<lparr>deck := d\<rparr>)"
  have 1: "active_players ?r = active_players e"
    unfolding reset_hands_def by (subst reset_hands_loop_frame) simp
  show ?thesis
    using deal_cards_loop_legal [of "active_players ?r" ?r] assms
    unfolding deal_of_def deal_cards_def 1 .
qed

lemma player_overwrite_eq:
  "name x = name y \<Longrightarrow> initial_hand_size x = initial_hand_size y \<Longrightarrow>
     x\<lparr>hand := h, trump_rank := t\<rparr> = (y\<lparr>hand := h, trump_rank := t\<rparr> :: player)"
  by (cases x, cases y) simp

lemma reset_hands_store:
  "store (reset_hands e) p =
     (if p \<in> set (active_players e)
      then (store e p)\<lparr>hand := [], trump_rank := Some (trump_suit e)\<rparr>
      else store e p)"
  by (simp add: reset_hands_def reset_hands_loop_store)

lemma reset_hands_frame: "reset_hands e = e\<lparr>store := store (reset_hands e)\<rparr>"
  unfolding reset_hands_def by (rule reset_hands_loop_frame)

lemma deal_cards_frame:
  "snd (deal_cards e) = e\<lparr>store := store (snd (deal_cards e)), deck := deck (snd (deal_cards e))\<rparr>"
  unfolding deal_cards_def by (rule deal_cards_loop_frame)

lemma reset_hands_fields:
  "active_players (reset_hands e) = active_players e"
  "trump_suit (reset_hands e) = trump_suit e"
  "deck (reset_hands e) = deck e"
  by (subst reset_hands_frame, simp)+

lemma deal_cards_fields:
  "active_players (snd (deal_cards e)) = active_players e"
  "trump_suit (snd (deal_cards e)) = trump_suit e"
  by (subst deal_cards_frame, simp)+

lemma deal_of_store:
  "name (store (snd (deal_of d e)) p) = name (store e p)"
  "initial_hand_size (store (snd (deal_of d e)) p) = initial_hand_size (store e p)"
  "p \<notin> set (active_players e) \<Longrightarrow> store (snd (deal_of d e)) p = store e p"
proof -
  let ?r0 = "reset_hands (e\<lparr>deck := d\<rparr>)"
  note 1 = deal_cards_loop_player [of "active_players ?r0" ?r0 p]
  have 2: "name (store ?r0 p) = name (store e p)"
    "initial_hand_size (store ?r0 p) = initial_hand_size (store e p)"
    by (simp_all add: reset_hands_store)
  have 3: "p \<notin> set (active_players e) \<Longrightarrow> store ?r0 p = store e p"
    by (simp add: reset_hands_store)
  have 4: "active_players ?r0 = active_players e" by (simp add: reset_hands_fields)
  show "name (store (snd (deal_of d e)) p) = name (store e p)"
    unfolding deal_of_def deal_cards_def using 1 [THEN conjunct1] 2(1) by (rule trans)
  show "initial_hand_size (store (snd (deal_of d e)) p) = initial_hand_size (store e p)"
    unfolding deal_of_def deal_cards_def
    using 1 [THEN conjunct2, THEN conjunct1] 2(2) by (rule trans)
  assume n: "p \<notin> set (active_players e)"
  then have "p \<notin> set (active_players ?r0)" unfolding 4 .
  with 1 have "store (snd (deal_cards_loop (active_players ?r0) ?r0)) p = store ?r0 p"
    by (elim conjE) (erule (1) impE, assumption)
  then show "store (snd (deal_of d e)) p = store e p"
    unfolding deal_of_def deal_cards_def using 3 [OF n] by (rule trans)
qed

lemma reset_hands_eq:
  "reset_hands e =
     e\<lparr>store := (\<lambda>p. if p \<in> set (active_players e)
                       then (store e p)\<lparr>hand := [], trump_rank := Some (trump_suit e)\<rparr>
                       else store e p)\<rparr>"
proof -
  have "store (reset_hands e) =
     (\<lambda>p. if p \<in> set (active_players e)
                       then (store e p)\<lparr>hand := [], trump_rank := Some (trump_suit e)\<rparr>
                       else store e p)"
    by (rule ext) (rule reset_hands_store)
  with reset_hands_frame [of e] show ?thesis by simp
qed

lemma deal_of_again: "deal_of d (snd (deal_of d0 e)) = deal_of d e"
proof -
  define e1 where "e1 = snd (deal_of d0 e)"
  define r0 where "r0 = reset_hands (e\<lparr>deck := d0\<rparr>)"
  have e1r: "e1 = snd (deal_cards r0)" by (simp add: e1_def r0_def deal_of_def)
  have 1: "e1 = r0\<lparr>store := store e1, deck := deck e1\<rparr>"
    unfolding e1r by (rule deal_cards_frame)
  have 2: "r0 = (e\<lparr>deck := d0\<rparr>)\<lparr>store := store r0\<rparr>"
    unfolding r0_def by (rule reset_hands_frame)
  have "e1 = ((e\<lparr>deck := d0\<rparr>)\<lparr>store := store r0\<rparr>)\<lparr>store := store e1, deck := deck e1\<rparr>"
    using 1 2 by simp
  then have A: "e1 = e\<lparr>store := store e1, deck := deck e1\<rparr>" by simp
  have B: "e1\<lparr>deck := d\<rparr> = (e\<lparr>deck := d\<rparr>)\<lparr>store := store e1\<rparr>"
    by (subst A) simp
  have ring: "active_players e1 = active_players e" by (subst A) simp
  have trump: "trump_suit e1 = trump_suit e" by (subst A) simp
  have L: "reset_hands (e1\<lparr>deck := d\<rparr>) =
      e\<lparr>deck := d, store := (\<lambda>p. if p \<in> set (active_players e)
                 then (store e1 p)\<lparr>hand := [], trump_rank := Some (trump_suit e)\<rparr>
                 else store e1 p)\<rparr>"
  proof -
    have "reset_hands (e1\<lparr>deck := d\<rparr>) =
      (e1\<lparr>deck := d\<rparr>)\<lparr>store := (\<lambda>p. if p \<in> set (active_players e)
                 then (store e1 p)\<lparr>hand := [], trump_rank := Some (trump_suit e)\<rparr>
                 else store e1 p)\<rparr>"
      by (subst reset_hands_eq) (simp add: ring trump cong del: if_weak_cong)
    also have "\<dots> = ((e\<lparr>deck := d\<rparr>)\<lparr>store := store e1\<rparr>)\<lparr>store := (\<lambda>p. if p \<in> set (active_players e)
                 then (store e1 p)\<lparr>hand := [], trump_rank := Some (trump_suit e)\<rparr>
                 else store e1 p)\<rparr>"
      by (simp only: B)
    also have "\<dots> = e\<lparr>deck := d, store := (\<lambda>p. if p \<in> set (active_players e)
                 then (store e1 p)\<lparr>hand := [], trump_rank := Some (trump_suit e)\<rparr>
                 else store e1 p)\<rparr>"
      by simp
    finally show ?thesis .
  qed
  have R: "reset_hands (e\<lparr>deck := d\<rparr>) =
      e\<lparr>deck := d, store := (\<lambda>p. if p \<in> set (active_players e)
                 then (store e p)\<lparr>hand := [], trump_rank := Some (trump_suit e)\<rparr>
                 else store e p)\<rparr>"
    by (subst reset_hands_eq) (simp cong del: if_weak_cong)
  have st: "(\<lambda>p. if p \<in> set (active_players e)
                 then (store e1 p)\<lparr>hand := [], trump_rank := Some (trump_suit e)\<rparr>
                 else store e1 p)
          = (\<lambda>p. if p \<in> set (active_players e)
                 then (store e p)\<lparr>hand := [], trump_rank := Some (trump_suit e)\<rparr>
                 else store e p)"
  proof (rule ext)
    fix p
    show "(if p \<in> set (active_players e)
                 then (store e1 p)\<lparr>hand := [], trump_rank := Some (trump_suit e)\<rparr>
                 else store e1 p)
          = (if p \<in> set (active_players e)
                 then (store e p)\<lparr>hand := [], trump_rank := Some (trump_suit e)\<rparr>
                 else store e p)"
    proof (cases "p \<in> set (active_players e)")
      case True
      have "(store e1 p)\<lparr>hand := [], trump_rank := Some (trump_suit e)\<rparr>
            = (store e p)\<lparr>hand := [], trump_rank := Some (trump_suit e)\<rparr>"
        unfolding e1_def by (rule player_overwrite_eq) (rule deal_of_store)+
      with True show ?thesis by simp
    next
      case False
      then have "store e1 p = store e p" unfolding e1_def by (rule deal_of_store)
      with False show ?thesis by simp
    qed
  qed
  have "reset_hands (e1\<lparr>deck := d\<rparr>) = reset_hands (e\<lparr>deck := d\<rparr>)"
    unfolding L R st ..
  then show ?thesis unfolding deal_of_def e1_def by simp
qed

lemma initialize_players_unfold:
  "initialize_players (d # ds) e =
     (if fst (deal_of d e) then initialize_players ds e else Some (snd (deal_of d e)))"
proof -
  have 1: "initialize_players (d # ds) e =
     (if fst (deal_of d e) then initialize_players ds (snd (deal_of d e))
      else Some (snd (deal_of d e)))"
    by (simp add: deal_of_def split: prod.splits)
  have 2: "initialize_players ds (snd (deal_of d e)) = initialize_players ds e"
  proof (cases ds)
    case Nil
    then show ?thesis by simp
  next
    case (Cons d' ds')
    have "initialize_players (d' # ds') (snd (deal_of d e)) =
       (if fst (deal_of d' (snd (deal_of d e)))
        then initialize_players ds' (snd (deal_of d' (snd (deal_of d e))))
        else Some (snd (deal_of d' (snd (deal_of d e)))))"
      by (simp add: deal_of_def split: prod.splits)
    also have "\<dots> = (if fst (deal_of d' e) then initialize_players ds' (snd (deal_of d' e))
        else Some (snd (deal_of d' e)))"
      unfolding deal_of_again ..
    also have "\<dots> = initialize_players (d' # ds') e"
      by (simp add: deal_of_def split: prod.splits)
    finally show ?thesis unfolding Cons .
  qed
  show ?thesis unfolding 1 2 ..
qed

lemma initialize_players_Some:
  "initialize_players ds e = Some e' \<Longrightarrow>
     \<exists>d\<in>set ds. \<not> fst (deal_of d e) \<and> e' = snd (deal_of d e)"
proof (induction ds)
  case Nil
  then show ?case by simp
next
  case (Cons d ds)
  show ?case
  proof (cases "fst (deal_of d e)")
    case True
    with Cons.prems have "initialize_players ds e = Some e'"
      by (simp add: initialize_players_unfold del: initialize_players.simps)
    with Cons.IH show ?thesis by auto
  next
    case False
    with Cons.prems have "e' = snd (deal_of d e)"
      by (simp add: initialize_players_unfold del: initialize_players.simps)
    with False show ?thesis by simp
  qed
qed

lemma initialize_players_first:
  "\<forall>d\<in>set ds1. fst (deal_of d e) \<Longrightarrow> \<not> fst (deal_of d e) \<Longrightarrow>
     initialize_players (ds1 @ d # ds2) e = Some (snd (deal_of d e))"
  by (induction ds1) (simp_all add: initialize_players_unfold del: initialize_players.simps(2))

lemma initialize_players_None:
  "initialize_players ds e = None \<longleftrightarrow> (\<forall>d\<in>set ds. fst (deal_of d e))"
  by (induction ds) (simp_all add: initialize_players_unfold del: initialize_players.simps(2))

lemma deal_cards_loop_illegal:
  "fst (deal_cards_loop ps e) \<Longrightarrow>
     \<exists>p\<in>set ps. \<not> is_starting_hand_legal (store (snd (deal_cards_loop ps e)) p)"
proof (induction ps arbitrary: e)
  case Nil
  then show ?case by simp
next
  case (Cons p ps)
  let ?e1 = "(on_player e p (\<lambda>pl. take_cards pl (take (nat HAND_SIZE) (deck e))))\<lparr>deck := drop (nat HAND_SIZE) (deck e)\<rparr>"
  have s: "deal_cards_loop (p # ps) e =
      (if \<not> is_starting_hand_legal (store ?e1 p) then (True, ?e1) else deal_cards_loop ps ?e1)"
    by (simp add: draw_def Let_def)
  show ?case
  proof (cases "is_starting_hand_legal (store ?e1 p)")
    case False
    then have "snd (deal_cards_loop (p # ps) e) = ?e1" unfolding s by simp
    with False show ?thesis by simp
  next
    case True
    then have r: "deal_cards_loop (p # ps) e = deal_cards_loop ps ?e1" unfolding s by simp
    from Cons.prems have "fst (deal_cards_loop ps ?e1)" unfolding r .
    from Cons.IH [OF this] show ?thesis unfolding r by auto
  qed
qed

lemma deal_of_illegal:
  assumes "fst (deal_of d e)"
  shows "\<exists>p\<in>set (active_players e). \<not> is_starting_hand_legal (store (snd (deal_of d e)) p)"
proof -
  let ?r = "reset_hands (e\<lparr>deck := d\<rparr>)"
  have 1: "active_players ?r = active_players e" by (subst reset_hands_eq) simp
  show ?thesis
    using deal_cards_loop_illegal [of "active_players ?r" ?r] assms
    unfolding deal_of_def deal_cards_def 1 .
qed

lemma deal_cards_loop_hands:
  "set (hand (store (snd (deal_cards_loop ps e)) q)) \<subseteq> set (hand (store e q)) \<union> set (deck e)"
proof (induction ps arbitrary: e)
  case Nil
  show ?case by simp
next
  case (Cons p ps)
  let ?e1 = "(on_player e p (\<lambda>pl. take_cards pl (take (nat HAND_SIZE) (deck e))))\<lparr>deck := drop (nat HAND_SIZE) (deck e)\<rparr>"
  have s: "deal_cards_loop (p # ps) e =
      (if \<not> is_starting_hand_legal (store ?e1 p) then (True, ?e1) else deal_cards_loop ps ?e1)"
    by (simp add: draw_def Let_def)
  have e1: "set (hand (store ?e1 q)) \<subseteq> set (hand (store e q)) \<union> set (deck e)"
    "set (deck ?e1) \<subseteq> set (deck e)"
    by (auto simp add: on_player_def take_cards_def dest: in_set_takeD in_set_dropD)
  show ?case
  proof (cases "is_starting_hand_legal (store ?e1 p)")
    case False
    then have "snd (deal_cards_loop (p # ps) e) = ?e1" unfolding s by simp
    then show ?thesis using e1(1) by simp
  next
    case True
    then have r: "snd (deal_cards_loop (p # ps) e) = snd (deal_cards_loop ps ?e1)"
      unfolding s by simp
    have "set (hand (store (snd (deal_cards_loop ps ?e1)) q))
        \<subseteq> set (hand (store ?e1 q)) \<union> set (deck ?e1)"
      by (rule Cons.IH)
    also have "\<dots> \<subseteq> set (hand (store e q)) \<union> set (deck e)"
      using e1 by (rule Un_least [OF _ subset_trans [OF _ Un_upper2]])
    finally show ?thesis unfolding r .
  qed
qed

lemma deal_of_hands:
  assumes "q \<in> set (active_players e)"
  shows "set (hand (store (snd (deal_of d e)) q)) \<subseteq> set d"
proof -
  let ?r = "reset_hands (e\<lparr>deck := d\<rparr>)"
  have "hand (store ?r q) = []" using assms by (simp add: reset_hands_store)
  moreover have "deck ?r = d" by (simp add: reset_hands_fields)
  ultimately show ?thesis
    using deal_cards_loop_hands [of "active_players ?r" ?r q]
    unfolding deal_of_def deal_cards_def by simp
qed

lemma deal_of_fst:
  "fst (deal_of d e) =
     (\<exists>q\<in>set (active_players e). \<not> is_starting_hand_legal (store (snd (deal_of d e)) q))"
  using deal_of_illegal [of d e] deal_of_legal [of d e] by auto

lemma initialize_players_legal:
  assumes "initialize_players ds e = Some e'"
  shows "\<forall>q\<in>set (active_players e'). is_starting_hand_legal (store e' q)"
proof -
  from initialize_players_Some [OF assms] obtain d where
    d: "\<not> fst (deal_of d e)" "e' = snd (deal_of d e)" by blast
  have "active_players e' = active_players e" unfolding d(2) by (rule deal_of_active_players)
  with deal_of_legal [OF d(1)] d(2) show ?thesis by simp
qed


text \<open>
  C8: a dealt hand of \<open>HAND_SIZE\<close> cards, held by a player created with that hand size, is
  a legal starting hand exactly when it is not illegal in the spec's words. A deal asks for
  another deal exactly when it leaves a player with an illegal hand. An iteration of the
  deal loop whose deal is not legal leaves no trace: the loop goes on with the next shuffle
  from the engine it started with; so the loop returns the deal of the first shuffle that
  deals legally, every hand it returns is legal, and every hand consists of cards of that
  shuffle only. Three hearts with three diamonds are rejected; two hearts, two spades and
  two clubs are accepted.
\<close>

theorem C8_starting_hands:
  "(initial_hand_size p = HAND_SIZE \<and> int (length (hand p)) = HAND_SIZE
      \<and> set (hand p) \<subseteq> set get_full_list_of_cards
     \<longrightarrow> is_starting_hand_legal p = (\<not> illegal_starting_hand_spec (hand p)))
   \<and> fst (deal_of d e) =
       (\<exists>q\<in>set (active_players e). \<not> is_starting_hand_legal (store (snd (deal_of d e)) q))
   \<and> initialize_players (d # ds) e =
       (if fst (deal_of d e) then initialize_players ds e else Some (snd (deal_of d e)))
   \<and> ((\<forall>x\<in>set ds1. fst (deal_of x e)) \<and> \<not> fst (deal_of d e)
        \<longrightarrow> initialize_players (ds1 @ d # ds2) e = Some (snd (deal_of d e)))
   \<and> (initialize_players ds e = Some e'
        \<longrightarrow> (\<forall>q\<in>set (active_players e'). is_starting_hand_legal (store e' q)))
   \<and> (\<forall>q\<in>set (active_players e). set (hand (store (snd (deal_of d e)) q)) \<subseteq> set d)
   \<and> \<not> is_starting_hand_legal
         ((example_player ''three hearts, three diamonds'')
            \<lparr>hand := [(6, HEARTS), (9, HEARTS), (14, HEARTS),
                      (7, DIAMONDS), (8, DIAMONDS), (12, DIAMONDS)]\<rparr>)
   \<and> is_starting_hand_legal
         ((example_player ''two hearts, two spades, two clubs'')
            \<lparr>hand := [(6, HEARTS), (9, HEARTS), (7, SPADES), (8, SPADES),
                      (12, CLUBS), (14, CLUBS)]\<rparr>)"
proof (intro conjI impI ballI)
  assume "initial_hand_size p = HAND_SIZE \<and> int (length (hand p)) = HAND_SIZE
      \<and> set (hand p) \<subseteq> set get_full_list_of_cards"
  then show "is_starting_hand_legal p = (\<not> illegal_starting_hand_spec (hand p))"
    by (elim conjE) (rule starting_hand_legal_iff)
next
  show "fst (deal_of d e) =
       (\<exists>q\<in>set (active_players e). \<not> is_starting_hand_legal (store (snd (deal_of d e)) q))"
    by (rule deal_of_fst)
next
  show "initialize_players (d # ds) e =
       (if fst (deal_of d e) then initialize_players ds e else Some (snd (deal_of d e)))"
    by (rule initialize_players_unfold)
next
  assume "(\<forall>x\<in>set ds1. fst (deal_of x e)) \<and> \<not> fst (deal_of d e)"
  then show "initialize_players (ds1 @ d # ds2) e = Some (snd (deal_of d e))"
    by (elim conjE) (rule initialize_players_first)
next
  fix q
  assume "initialize_players ds e = Some e'" "q \<in> set (active_players e')"
  then show "is_starting_hand_legal (store e' q)"
    using initialize_players_legal by blast
next
  fix q
  assume "q \<in> set (active_players e)"
  then show "set (hand (store (snd (deal_of d e)) q)) \<subseteq> set d" by (rule deal_of_hands)
next
  show "\<not> is_starting_hand_legal
         ((example_player ''three hearts, three diamonds'')
            \<lparr>hand := [(6, HEARTS), (9, HEARTS), (14, HEARTS),
                      (7, DIAMONDS), (8, DIAMONDS), (12, DIAMONDS)]\<rparr>)"
    by code_simp
next
  show "is_starting_hand_legal
         ((example_player ''two hearts, two spades, two clubs'')
            \<lparr>hand := [(6, HEARTS), (9, HEARTS), (7, SPADES), (8, SPADES),
                      (12, CLUBS), (14, CLUBS)]\<rparr>)"
    by code_simp
qed

theorem C8_starting_hands_witness:
  "initial_hand_size (store (example_game 2 []) 0) = HAND_SIZE
   \<and> int (length (hand (store (example_game 2 []) 0))) = HAND_SIZE
   \<and> list_all (\<lambda>c. c \<in> set get_full_list_of_cards) (hand (store (example_game 2 []) 0))
   \<and> is_starting_hand_legal (store (example_game 2 []) 0)
   \<and> \<not> illegal_starting_hand_spec (hand (store (example_game 2 []) 0))
   \<and> fst (deal_of get_full_list_of_cards (reset_attributes (init example_store [0, 1]) [0, 1]))
   \<and> \<not> fst (deal_of example_deck (reset_attributes (init example_store [0, 1]) [0, 1]))
   \<and> initialize_players [get_full_list_of_cards, example_deck]
        (reset_attributes (init example_store [0, 1]) [0, 1])
       = Some (snd (deal_of example_deck (reset_attributes (init example_store [0, 1]) [0, 1])))
   \<and> list_all (\<lambda>q. is_starting_hand_legal
         (store (snd (deal_of example_deck (reset_attributes (init example_store [0, 1]) [0, 1]))) q))
        [0, 1]"
proof -
  let ?p = "store (example_game 2 []) 0"
  let ?e = "reset_attributes (init example_store [0, 1]) [0, 1]"
  have p1: "initial_hand_size ?p = HAND_SIZE" by code_simp
  have p2: "int (length (hand ?p)) = HAND_SIZE" by code_simp
  have p3: "list_all (\<lambda>c. c \<in> set get_full_list_of_cards) (hand ?p)" by code_simp
  have p4: "\<not> illegal_starting_hand_spec (hand ?p)" by code_simp
  have s: "set (hand ?p) \<subseteq> set get_full_list_of_cards"
    using p3 by (auto simp only: list_all_iff)
  note t = C8_starting_hands [of ?p example_deck ?e "[]" "[get_full_list_of_cards]" "[]" ?e]
  have l: "is_starting_hand_legal ?p" using t p1 p2 s p4 by simp
  have d1: "fst (deal_of get_full_list_of_cards ?e)" by code_simp
  have d2: "\<not> fst (deal_of example_deck ?e)" by code_simp
  have i: "initialize_players [get_full_list_of_cards, example_deck] ?e
       = Some (snd (deal_of example_deck ?e))"
    using t d1 d2 by simp
  have "active_players ?e = [0, 1]" by (simp add: reset_attributes_def)
  with initialize_players_legal [OF i] d2
  have a: "list_all (\<lambda>q. is_starting_hand_legal (store (snd (deal_of example_deck ?e)) q)) [0, 1]"
    by (simp add: deal_of_active_players)
  from p1 p2 p3 l p4 d1 d2 i a show ?thesis by (intro conjI)
qed

section \<open>The number of players at reset\<close>














section \<open>The sizes of the table lists\<close>













end
